theory Spec2Isabelle
  imports Complex_Main
begin

section \<open>Strings\<close>

text \<open>
  A Python \<^verbatim>\<open>str\<close> is a sequence of Unicode code points. The scripts work on Chinese
  file names, keys and tokens, so a string is modelled as the list of its code points
  (natural numbers); \<open>length\<close>, prefix and substring tests then count what Python counts.
\<close>

type_synonym ustr = "nat list"

text \<open>
  The characters that \<^verbatim>\<open>str.strip()\<close> removes and that \<^verbatim>\<open>\s\<close> matches in a \<^verbatim>\<open>str\<close>
  pattern: U+0009..U+000D, U+001C..U+0020, U+0085, U+00A0, U+1680, U+2000..U+200A,
  U+2028, U+2029, U+202F, U+205F, U+3000.
\<close>

definition is_space :: "nat \<Rightarrow> bool" where
  "is_space c \<longleftrightarrow>
     (9 \<le> c \<and> c \<le> 13) \<or> (28 \<le> c \<and> c \<le> 32) \<or> c = 133 \<or> c = 160 \<or> c = 5760 \<or>
     (8192 \<le> c \<and> c \<le> 8202) \<or> c = 8232 \<or> c = 8233 \<or> c = 8239 \<or> c = 8287 \<or>
     c = 12288"

text \<open>\<^verbatim>\<open>s.strip()\<close>: whitespace is dropped at both ends.\<close>

definition strip :: "ustr \<Rightarrow> ustr" where
  "strip s = rev (dropWhile is_space (rev (dropWhile is_space s)))"

text \<open>\<^verbatim>\<open>s.startswith(p)\<close> and \<^verbatim>\<open>sub in s\<close>.\<close>

fun startswith :: "ustr \<Rightarrow> ustr \<Rightarrow> bool" where
  "startswith s [] = True"
| "startswith [] (p # ps) = False"
| "startswith (c # cs) (p # ps) = (c = p \<and> startswith cs ps)"

fun str_in :: "ustr \<Rightarrow> ustr \<Rightarrow> bool" where
  "str_in sub [] = (sub = [])"
| "str_in sub (c # cs) = (startswith (c # cs) sub \<or> str_in sub cs)"

text \<open>\<^verbatim>\<open>os.path.basename\<close> (POSIX): everything after the last slash.\<close>

definition basename :: "ustr \<Rightarrow> ustr" where
  "basename p = rev (takeWhile (\<lambda>c. c \<noteq> 47) (rev p))"

section \<open>Output file names\<close>

text \<open>The fallback name, U+672A U+547D U+540D.\<close>

definition UNNAMED :: ustr where
  "UNNAMED = [26410, 21629, 21517]"

text \<open>
  The character class of \<^verbatim>\<open>sanitize_filename\<close>: backslash, slash, colon, asterisk,
  question mark, double quote, less-than, greater-than and vertical bar.
\<close>

definition forbidden :: "nat set" where
  "forbidden = {92, 47, 58, 42, 63, 34, 60, 62, 124}"

text \<open>Python's \<^verbatim>\<open>a or b\<close> on strings: \<open>a\<close> unless it is empty.\<close>

definition str_or :: "ustr \<Rightarrow> ustr \<Rightarrow> ustr" where
  "str_or a b = (if a = [] then b else a)"

text \<open>
  \<^verbatim>\<open>
  def sanitize_filename(name):
      safe = (name or UNNAMED).strip() or UNNAMED
      return re.sub(r"[\\/:*?\"<>|]", "_", safe)
  \<close>
  The pattern matches one character at a time and the replacement is the literal
  underscore (U+005F), so the substitution is a map over the characters.
\<close>

definition sanitize_filename :: "ustr \<Rightarrow> ustr" where
  "sanitize_filename name =
     (let safe = str_or (strip (str_or name UNNAMED)) UNNAMED
      in map (\<lambda>c. if c \<in> forbidden then 95 else c) safe)"

section \<open>Photo classification (script 1)\<close>

text \<open>
  The keywords of \<^verbatim>\<open>classify_photos\<close>: U+8D70 U+8BBF, U+8D1D U+58F3,
  U+5B89 U+5C45 U+5BA2, U+8BC4 U+4F30 and U+67E5 U+8BE2.
\<close>

definition KW_VISIT :: ustr where "KW_VISIT = [36208, 35775]"
definition KW_BEIKE :: ustr where "KW_BEIKE = [36125, 22771]"
definition KW_ANJUKE :: ustr where "KW_ANJUKE = [23433, 23621, 23458]"
definition KW_APPRAISAL :: ustr where "KW_APPRAISAL = [35780, 20272]"
definition KW_QUERY :: ustr where "KW_QUERY = [26597, 35810]"

text \<open>The dictionary with its four fixed keys, in the order the source creates them.\<close>

record photo_info =
  visit_photos :: "ustr list"
  beike_query :: "ustr list"
  anjuke_query :: "ustr list"
  appraisal :: "ustr list"

text \<open>One turn of the loop body: the \<^verbatim>\<open>if/elif\<close> chain on the base name.\<close>

definition classify_step :: "photo_info \<Rightarrow> ustr \<Rightarrow> photo_info" where
  "classify_step info f =
     (let name = basename f in
      if startswith name KW_VISIT then info\<lparr>visit_photos := visit_photos info @ [f]\<rparr>
      else if str_in KW_BEIKE name then info\<lparr>beike_query := beike_query info @ [f]\<rparr>
      else if str_in KW_ANJUKE name then info\<lparr>anjuke_query := anjuke_query info @ [f]\<rparr>
      else if str_in KW_APPRAISAL name \<or> str_in KW_QUERY name
        then info\<lparr>appraisal := appraisal info @ [f]\<rparr>
      else info)"

definition classify_photos :: "ustr list \<Rightarrow> photo_info" where
  "classify_photos files =
     foldl classify_step
       \<lparr>visit_photos = [], beike_query = [], anjuke_query = [], appraisal = []\<rparr> files"

text \<open>The four rules, each with the rules before it excluded.\<close>

definition rule_visit :: "ustr \<Rightarrow> bool" where
  "rule_visit f \<longleftrightarrow> startswith (basename f) KW_VISIT"

definition rule_beike :: "ustr \<Rightarrow> bool" where
  "rule_beike f \<longleftrightarrow> \<not> rule_visit f \<and> str_in KW_BEIKE (basename f)"

definition rule_anjuke :: "ustr \<Rightarrow> bool" where
  "rule_anjuke f \<longleftrightarrow>
     \<not> rule_visit f \<and> \<not> str_in KW_BEIKE (basename f) \<and> str_in KW_ANJUKE (basename f)"

definition rule_appraisal :: "ustr \<Rightarrow> bool" where
  "rule_appraisal f \<longleftrightarrow>
     \<not> rule_visit f \<and> \<not> str_in KW_BEIKE (basename f) \<and> \<not> str_in KW_ANJUKE (basename f) \<and>
     (str_in KW_APPRAISAL (basename f) \<or> str_in KW_QUERY (basename f))"

section \<open>Documents\<close>

text \<open>
  The part of a word-processing document that the scripts read and write: the body is a
  sequence of paragraphs and tables, a table is a list of rows of cells, and a cell again
  holds paragraphs and tables. A paragraph is a list of runs; a run carries text, an
  inline picture (named by the path of its image file) or a page break. Formatting
  (styles, alignment, row heights, picture widths) is not part of the model.
\<close>

datatype run = Text ustr | Picture ustr | PageBreak

datatype para = Paragraph (runs: "run list")

datatype block = Para para | Tbl table
  and table = Table (rows: "cell list list")
  and cell = Cell (content: "block list")

datatype document = Document (body: "block list")

section \<open>The file system\<close>

text \<open>
  A path names a directory, a document file or some other file, or nothing.
  \<^verbatim>\<open>os.path.exists\<close> is true of every path that names something.
\<close>

datatype node = Dir | Docx document | Other

type_synonym fs = "ustr \<Rightarrow> node option"

definition path_exists :: "fs \<Rightarrow> ustr \<Rightarrow> bool" where
  "path_exists files p \<longleftrightarrow> files p \<noteq> None"

text \<open>\<^verbatim>\<open>doc.save(path)\<close> writes the document at the path.\<close>

definition save_docx :: "fs \<Rightarrow> ustr \<Rightarrow> document \<Rightarrow> fs" where
  "save_docx files p d = files(p \<mapsto> Docx d)"

text \<open>
  \<^verbatim>\<open>os.path.splitext\<close> (POSIX): the extension starts at the last dot of the last path
  component, unless only dots come before it in that component.
\<close>

definition splitext :: "ustr \<Rightarrow> ustr \<times> ustr" where
  "splitext p =
     (let name = basename p;
          ext = rev (takeWhile (\<lambda>c. c \<noteq> 46) (rev name));
          stem = take (length name - (length ext + 1)) name
      in if 46 \<notin> set name \<or> list_all (\<lambda>c. c = 46) stem then (p, [])
         else (take (length p - (length ext + 1)) p, 46 # ext))"

text \<open>\<^verbatim>\<open>str(n)\<close> for a non-negative integer: its decimal digits.\<close>

fun str_nat :: "nat \<Rightarrow> ustr" where
  "str_nat n = (if n < 10 then [48 + n] else str_nat (n div 10) @ [48 + n mod 10])"

text \<open>The candidate \<^verbatim>\<open>f"{root} ({idx}){ext}"\<close>; \<open>rt\<close> stands for \<^verbatim>\<open>root\<close>.\<close>

definition candidate :: "ustr \<Rightarrow> nat \<Rightarrow> ustr \<Rightarrow> ustr" where
  "candidate rt idx ext = rt @ [32, 40] @ str_nat idx @ [41] @ ext"

text \<open>
  \<^verbatim>\<open>
  def next_nonconflicting_path(path):
      if not os.path.exists(path):
          return path
      root, ext = os.path.splitext(path)
      idx = 1
      while True:
          candidate = f"{root} ({idx}){ext}"
          if not os.path.exists(candidate):
              return candidate
          idx += 1
  \<close>
  The loop has no bound of its own, so it is a partial function: \<open>None\<close> stands for
  a loop that never returns.
\<close>

partial_function (option) next_candidate :: "fs \<Rightarrow> ustr \<Rightarrow> ustr \<Rightarrow> nat \<Rightarrow> ustr option" where
  "next_candidate files rt ext idx =
     (if \<not> path_exists files (candidate rt idx ext) then Some (candidate rt idx ext)
      else next_candidate files rt ext (idx + 1))"

definition next_nonconflicting_path :: "fs \<Rightarrow> ustr \<Rightarrow> ustr option" where
  "next_nonconflicting_path files path =
     (if \<not> path_exists files path then Some path
      else case splitext path of (rt, ext) \<Rightarrow> next_candidate files rt ext 1)"

section \<open>The interactive wizard (script 2)\<close>

text \<open>
  The three required keys, in the order of \<^verbatim>\<open>PLACEHOLDER_KEYS\<close>:
  U+5BA2 U+6237 U+540D U+79F0 (customer name), U+884C U+4E1A U+5206 U+7C7B (industry)
  and U+7ECF U+8425 U+5730 U+5740 (business address).
\<close>

definition KEY_CUSTOMER :: ustr where "KEY_CUSTOMER = [23458, 25143, 21517, 31216]"
definition KEY_INDUSTRY :: ustr where "KEY_INDUSTRY = [34892, 19994, 20998, 31867]"
definition KEY_ADDRESS :: ustr where "KEY_ADDRESS = [32463, 33829, 22320, 22336]"

definition PLACEHOLDER_KEYS :: "ustr list" where
  "PLACEHOLDER_KEYS = [KEY_CUSTOMER, KEY_INDUSTRY, KEY_ADDRESS]"

text \<open>The sentinel \<^verbatim>\<open>"__BACK__"\<close>.\<close>

definition BACK :: ustr where
  "BACK = [95, 95, 66, 65, 67, 75, 95, 95]"

text \<open>
  \<^verbatim>\<open>
  def prompt(msg):
      val = input(msg).strip()
      if val.upper() == "Q": raise KeyboardInterrupt
      if val.upper() == "B": return "__BACK__"
      return val
  \<close>
  The function is applied to the line that \<^verbatim>\<open>input\<close> has read. Only \<^verbatim>\<open>q\<close> and \<^verbatim>\<open>Q\<close>
  have the upper case \<^verbatim>\<open>Q\<close>, and only \<^verbatim>\<open>b\<close> and \<^verbatim>\<open>B\<close> the upper case \<^verbatim>\<open>B\<close>.
\<close>

datatype prompt_result = KeyboardInterrupt | Returned ustr

definition prompt :: "ustr \<Rightarrow> prompt_result" where
  "prompt line =
     (let val = strip line in
      if val = [81] \<or> val = [113] then KeyboardInterrupt
      else if val = [66] \<or> val = [98] then Returned BACK
      else Returned val)"

text \<open>
  What the wizard shows: the prompt for a key, and the messages it prints
  (\<^verbatim>\<open>RefillPrevious k\<close> is the line that announces the return to the previous item and
  names the key \<open>k\<close> to be filled in again; \<^verbatim>\<open>AtFirstItem\<close> says that there is no
  previous item; \<^verbatim>\<open>PleaseEnter k\<close> asks again for \<open>k\<close>; \<^verbatim>\<open>Exited\<close> is printed
  when the session is cancelled).
\<close>

datatype message = RefillPrevious ustr | AtFirstItem | PleaseEnter ustr | Exited

datatype event = Prompt ustr | Print message

text \<open>
  How the entry of the fields ends: the session is cancelled, the input ends
  (\<^verbatim>\<open>input\<close> raises \<^verbatim>\<open>EOFError\<close>), or all fields are filled and the wizard goes on to
  the photo prompt with the rest of the input.
\<close>

datatype outcome = Cancelled | EndOfInput | Filled "(ustr \<times> ustr) list" "ustr list"

text \<open>\<^verbatim>\<open>PLACEHOLDER_KEYS.index(key)\<close>, for a key of the tuple.\<close>

definition key_index :: "ustr \<Rightarrow> nat" where
  "key_index key = length (takeWhile (\<lambda>k. k \<noteq> key) PLACEHOLDER_KEYS)"

text \<open>
  The loops of \<^verbatim>\<open>interactive\<close> that collect the fields:
  \<^verbatim>\<open>
  while True:
      fields = {}
      for key in PLACEHOLDER_KEYS:
          while True:
              val = prompt(key)
              if val == "__BACK__":
                  prev_idx = PLACEHOLDER_KEYS.index(key) - 1
                  if prev_idx >= 0: print(refill PLACEHOLDER_KEYS[prev_idx])
                  else: print(at first item)
                  break
              if not val:
                  print(please enter key); continue
              fields[key] = val
              break
          if key not in fields:
              break
      if len(fields) < len(PLACEHOLDER_KEYS):
          continue
      ...
  \<close>
  \<open>interactive_fields keys answers inputs\<close> is the state in which the \<^verbatim>\<open>for\<close> loop still has
  the keys \<open>keys\<close> to ask, \<open>answers\<close> is the dictionary \<^verbatim>\<open>fields\<close> so far and \<open>inputs\<close> are the lines
  still to be read. After the sentinel the inner loop is left with the key not in
  \<^verbatim>\<open>fields\<close>, so the \<^verbatim>\<open>for\<close> loop is left as well, \<^verbatim>\<open>fields\<close> is short and the
  outer loop starts again: with an empty dictionary and all keys.
\<close>

fun interactive_fields ::
  "ustr list \<Rightarrow> (ustr \<times> ustr) list \<Rightarrow> ustr list \<Rightarrow> event list \<times> outcome" where
  "interactive_fields [] answers inputs = ([], Filled answers inputs)"
| "interactive_fields (key # keys) answers [] = ([Prompt key], EndOfInput)"
| "interactive_fields (key # keys) answers (line # inputs) =
     (case prompt line of
        KeyboardInterrupt \<Rightarrow> ([Prompt key, Print Exited], Cancelled)
      | Returned val \<Rightarrow>
          if val = BACK then
            (let msg = (if 0 < key_index key
                        then RefillPrevious (PLACEHOLDER_KEYS ! (key_index key - 1))
                        else AtFirstItem);
                 (evs, out) = interactive_fields PLACEHOLDER_KEYS [] inputs
             in (Prompt key # Print msg # evs, out))
          else if val = [] then
            (let (evs, out) = interactive_fields (key # keys) answers inputs
             in (Prompt key # Print (PleaseEnter key) # evs, out))
          else
            (let (evs, out) = interactive_fields keys (answers @ [(key, val)]) inputs
             in (Prompt key # evs, out)))"

text \<open>
  \<^verbatim>\<open>interactive\<close> from its first prompt to the end of the entry of the fields. The photo
  prompt, the summary and the generation that follow are not part of the model.
\<close>

definition interactive :: "ustr list \<Rightarrow> event list \<times> outcome" where
  "interactive inputs = interactive_fields PLACEHOLDER_KEYS [] inputs"

section \<open>Errors\<close>

text \<open>
  The exceptions that leave the functions modelled here: a missing template, the
  \<^verbatim>\<open>ValueError\<close> of \<^verbatim>\<open>generate_report\<close> that lists the keys without a placeholder, a file that
  is not a document package, a file in the place of the output directory, a division by
  zero, and the \<^verbatim>\<open>ValueError\<close> of the image library for a resize to less than one pixel.
\<close>

datatype error =
  FileNotFoundError ustr
| MissingPlaceholders "ustr list"
| PackageNotFoundError ustr
| FileExistsError ustr
| ZeroDivisionError
| ResizeError
| ReplacementEscape ustr

section \<open>Letterboxing\<close>

text \<open>
  \<^verbatim>\<open>_letterbox_image\<close> computes with Python floats. A float operation returns the exact
  result rounded to a double; the rounding is the parameter \<open>fl\<close> of the model, and
  \<open>rounding fl\<close> states what is used of it: it is monotone, it leaves the integers up to
  \<open>2^53\<close> as they are, and in the range from \<open>2^-64\<close> to \<open>2^64\<close> its relative error is
  at most \<open>2^-53\<close>. Round-to-nearest on doubles has these properties, and so has
  arithmetic without rounding, \<open>exact\<close>.
\<close>

definition rounding :: "(rat \<Rightarrow> rat) \<Rightarrow> bool" where
  "rounding fl \<longleftrightarrow>
     (\<forall>x y. x \<le> y \<longrightarrow> fl x \<le> fl y) \<and>
     (\<forall>n::int. \<bar>n\<bar> \<le> 2 ^ 53 \<longrightarrow> fl (of_int n) = of_int n) \<and>
     (\<forall>x. 1 \<le> \<bar>x\<bar> * 2 ^ 64 \<and> \<bar>x\<bar> \<le> 2 ^ 64 \<longrightarrow> \<bar>fl x - x\<bar> * 2 ^ 53 \<le> \<bar>x\<bar>)"

definition exact :: "rat \<Rightarrow> rat" where
  "exact x = x"

text \<open>\<^verbatim>\<open>int(x)\<close> on a float truncates towards zero.\<close>

definition py_int :: "rat \<Rightarrow> int" where
  "py_int x = (if 0 \<le> x then \<lfloor>x\<rfloor> else \<lceil>x\<rceil>)"

definition CANVAS_SIZE :: "int \<times> int" where "CANVAS_SIZE = (2200, 1650)"
definition CANVAS_MARGIN :: int where "CANVAS_MARGIN = 80"

text \<open>
  What determines the canvas that \<^verbatim>\<open>_letterbox_image\<close> returns: the scale, the size of
  the resized image and the offset at which it is pasted.
\<close>

record placement =
  factor :: rat
  resized :: "int \<times> int"
  offset :: "int \<times> int"

text \<open>
  \<^verbatim>\<open>
  def _letterbox_image(img, size, margin):
      canvas = Image.new("RGB", size, "white")
      target_w = max(size[0] - margin * 2, 1)
      target_h = max(size[1] - margin * 2, 1)
      scale = min(target_w / img.width, target_h / img.height, 1.0)
      resized = img.resize((int(img.width * scale), int(img.height * scale)), Image.LANCZOS)
      offset = ((size[0] - resized.width) // 2, (size[1] - resized.height) // 2)
      canvas.paste(resized, offset)
      return canvas
  \<close>
  An image is given by its width and height. A division by a zero width or height
  raises, and the image library refuses to resize to a width or height below one pixel.
\<close>

definition letterbox_image ::
  "(rat \<Rightarrow> rat) \<Rightarrow> int \<times> int \<Rightarrow> int \<times> int \<Rightarrow> int \<Rightarrow> error + placement" where
  "letterbox_image fl img canvas margin =
     (let target_w = max (fst canvas - margin * 2) 1;
          target_h = max (snd canvas - margin * 2) 1
      in if fst img = 0 \<or> snd img = 0 then Inl ZeroDivisionError
         else
           let scale = min (fl (of_int target_w / of_int (fst img)))
                         (min (fl (of_int target_h / of_int (snd img))) 1);
               rw = py_int (fl (of_int (fst img) * scale));
               rh = py_int (fl (of_int (snd img) * scale))
           in if rw < 1 \<or> rh < 1 then Inl ResizeError
              else Inr \<lparr>factor = scale, resized = (rw, rh),
                        offset = ((fst canvas - rw) div 2, (snd canvas - rh) div 2)\<rparr>)"

text \<open>The white borders around the pasted image, in pixels.\<close>

definition left_border :: "placement \<Rightarrow> int" where
  "left_border p = fst (offset p)"

definition top_border :: "placement \<Rightarrow> int" where
  "top_border p = snd (offset p)"

definition right_border :: "int \<times> int \<Rightarrow> placement \<Rightarrow> int" where
  "right_border canvas p = fst canvas - (fst (offset p) + fst (resized p))"

definition bottom_border :: "int \<times> int \<Rightarrow> placement \<Rightarrow> int" where
  "bottom_border canvas p = snd canvas - (snd (offset p) + snd (resized p))"

section \<open>Placeholder tokens\<close>

text \<open>
  Both \<^verbatim>\<open>replace_placeholders\<close> and \<^verbatim>\<open>inspect_template_placeholders\<close> compile, for a key, the
  pattern \<^verbatim>\<open>\{\{\s*KEY\s*\}\}\<close>: two opening braces (U+007B), whitespace, the key, whitespace,
  two closing braces (U+007D). \<open>match_token key s\<close> is the match of the pattern at the
  start of \<open>s\<close>, as the rest of \<open>s\<close> behind the match. The first \<^verbatim>\<open>\s*\<close> is greedy
  and gives whitespace back, longest first, when the key does not follow; the second is
  followed by a brace, so giving back cannot help there.
\<close>

fun strip_prefix :: "ustr \<Rightarrow> ustr \<Rightarrow> ustr option" where
  "strip_prefix [] s = Some s"
| "strip_prefix (p # ps) [] = None"
| "strip_prefix (p # ps) (c # cs) = (if p = c then strip_prefix ps cs else None)"

fun first_some :: "('a \<Rightarrow> 'b option) \<Rightarrow> 'a list \<Rightarrow> 'b option" where
  "first_some f [] = None"
| "first_some f (x # xs) = (case f x of Some y \<Rightarrow> Some y | None \<Rightarrow> first_some f xs)"

definition match_after_spaces :: "ustr \<Rightarrow> ustr \<Rightarrow> ustr option" where
  "match_after_spaces key s =
     (case strip_prefix key s of
        None \<Rightarrow> None
      | Some s2 \<Rightarrow> strip_prefix [125, 125] (dropWhile is_space s2))"

definition match_token :: "ustr \<Rightarrow> ustr \<Rightarrow> ustr option" where
  "match_token key s =
     (case strip_prefix [123, 123] s of
        None \<Rightarrow> None
      | Some s1 \<Rightarrow>
          first_some (\<lambda>i. match_after_spaces key (drop i s1))
            (rev [0 ..< Suc (length (takeWhile is_space s1))]))"

text \<open>A match consumes at least the two opening braces.\<close>

lemma strip_prefix_length: "strip_prefix p s = Some r \<Longrightarrow> length s = length p + length r"
  by (induction p s rule: strip_prefix.induct) (auto split: if_splits)

lemma first_some_elem: "first_some f xs = Some y \<Longrightarrow> \<exists>x\<in>set xs. f x = Some y"
  by (induction xs) (auto split: option.splits)

lemma match_after_spaces_length: "match_after_spaces key s = Some r \<Longrightarrow> length r < length s"
proof -
  assume a: "match_after_spaces key s = Some r"
  then obtain s2 where s2: "strip_prefix key s = Some s2"
    and r: "strip_prefix [125, 125] (dropWhile is_space s2) = Some r"
    by (auto simp: match_after_spaces_def split: option.splits)
  have "length (dropWhile is_space s2) \<le> length s2" by (rule length_dropWhile_le)
  with strip_prefix_length [OF s2] strip_prefix_length [OF r] show ?thesis by simp
qed

lemma match_token_length: "match_token key s = Some r \<Longrightarrow> length r < length s"
proof -
  assume a: "match_token key s = Some r"
  then obtain s1 where s1: "strip_prefix [123, 123] s = Some s1"
    and f: "first_some (\<lambda>i. match_after_spaces key (drop i s1))
            (rev [0 ..< Suc (length (takeWhile is_space s1))]) = Some r"
    by (auto simp: match_token_def split: option.splits)
  from first_some_elem [OF f] obtain i where "match_after_spaces key (drop i s1) = Some r"
    by blast
  then have "length r < length (drop i s1)" by (rule match_after_spaces_length)
  with strip_prefix_length [OF s1] show ?thesis by simp
qed

text \<open>
  \<^verbatim>\<open>pattern.subn(repl, text)\<close> with a replacement without backslash: the text with every
  match replaced, found from left to right without overlap, and the number of matches.
\<close>

function subn :: "ustr \<Rightarrow> ustr \<Rightarrow> ustr \<Rightarrow> ustr \<times> nat" where
  "subn key repl [] = ([], 0)"
| "subn key repl (c # cs) =
     (case match_token key (c # cs) of
        Some rest \<Rightarrow> (case subn key repl rest of (t, n) \<Rightarrow> (repl @ t, Suc n))
      | None \<Rightarrow> (case subn key repl cs of (t, n) \<Rightarrow> (c # t, n)))"
  by pat_completeness auto
termination
  by (relation "measure (\<lambda>(key, repl, s). length s)") (auto dest: match_token_length)


section \<open>Placeholder substitution\<close>

text \<open>
  The text of a run and of a paragraph (the texts of its runs, concatenated); a picture
  and a page break carry no text. Assigning a text to a paragraph leaves one run with
  that text.
\<close>

fun run_text :: "run \<Rightarrow> ustr" where
  "run_text (Text t) = t"
| "run_text (Picture path) = []"
| "run_text PageBreak = []"

definition para_text :: "para \<Rightarrow> ustr" where
  "para_text p = concat (map run_text (runs p))"

definition set_para_text :: "ustr \<Rightarrow> para" where
  "set_para_text t = Paragraph [Text t]"









text \<open>
  \<^verbatim>\<open>
  def _iter_paragraphs(doc):
      for para in doc.paragraphs:
          yield para
      for table in doc.tables:
          for row in table.rows:
              for cell in row.cells:
                  for para in cell.paragraphs:
                      yield para
  \<close>
  A paragraph is yielded with its place: the index in the body, or the indices of the
  table in the body, of the row, of the cell and of the paragraph in the cell.
\<close>

datatype loc = InBody nat | InCell nat nat nat nat

definition located_paragraphs :: "(nat \<Rightarrow> loc) \<Rightarrow> block list \<Rightarrow> (loc \<times> para) list" where
  "located_paragraphs mk bs =
     concat (map (\<lambda>(i, b). case b of Para p \<Rightarrow> [(mk i, p)] | Tbl t \<Rightarrow> []) (enumerate 0 bs))"

definition located_tables :: "block list \<Rightarrow> (nat \<times> table) list" where
  "located_tables bs =
     concat (map (\<lambda>(i, b). case b of Para p \<Rightarrow> [] | Tbl t \<Rightarrow> [(i, t)]) (enumerate 0 bs))"

definition iter_located :: "document \<Rightarrow> (loc \<times> para) list" where
  "iter_located doc =
     located_paragraphs InBody (body doc) @
     concat (map (\<lambda>(i, t).
               concat (map (\<lambda>(r, row).
                         concat (map (\<lambda>(c, cl). located_paragraphs (InCell i r c) (content cl))
                                   (enumerate 0 row)))
                       (enumerate 0 (rows t))))
             (located_tables (body doc)))"





section \<open>Photo insertion\<close>

text \<open>
  The three photo tokens (the braces around U+8D70 U+8BBF U+7167 U+7247, around
  U+7167 U+7247 and around U+7167 U+7247 U+533A), the keyword of the photo section
  (U+4E0A U+95E8 U+6838 U+5B9E U+56FE U+7247) and the heading that is appended when
  there is no anchor (the keyword and U+FF1A).
\<close>

definition PHOTO_TOKENS :: "ustr list" where
  "PHOTO_TOKENS =
     [[123, 123, 36208, 35775, 29031, 29255, 125, 125],
      [123, 123, 29031, 29255, 125, 125],
      [123, 123, 29031, 29255, 21306, 125, 125]]"

definition PHOTO_SECTION_KEYWORDS :: "ustr list" where
  "PHOTO_SECTION_KEYWORDS = [[19978, 38376, 26680, 23454, 22270, 29255]]"

definition PHOTO_SECTION_HEADING :: ustr where
  "PHOTO_SECTION_HEADING = [19978, 38376, 26680, 23454, 22270, 29255, 65306]"

definition PHOTOS_PER_PAGE :: nat where
  "PHOTOS_PER_PAGE = 2"

text \<open>\<^verbatim>\<open>s.replace(old, new)\<close>: every occurrence, from left to right without overlap.\<close>

function str_replace :: "ustr \<Rightarrow> ustr \<Rightarrow> ustr \<Rightarrow> ustr" where
  "str_replace old new s =
     (if old = [] then new @ concat (map (\<lambda>c. c # new) s)
      else if s = [] then []
      else if startswith s old then new @ str_replace old new (drop (length old) s)
      else hd s # str_replace old new (tl s))"
  by pat_completeness auto
termination
  by (relation "measure (\<lambda>(old, new, s). length s)") auto

declare str_replace.simps [simp del]

text \<open>
  \<^verbatim>\<open>
  def _clear_photo_tokens(paragraph):
      for token in PHOTO_TOKENS:
          if token in paragraph.text:
              paragraph.text = paragraph.text.replace(token, "")
  \<close>
\<close>

definition clear_photo_tokens :: "para \<Rightarrow> para" where
  "clear_photo_tokens p =
     foldl (\<lambda>q token. if str_in token (para_text q)
                        then set_para_text (str_replace token [] (para_text q)) else q)
       p PHOTO_TOKENS"

text \<open>
  \<^verbatim>\<open>
  def _find_photo_anchor(doc):
      for para in _iter_paragraphs(doc):
          if any(token in (para.text or "") for token in PHOTO_TOKENS):
              return para
      for para in _iter_paragraphs(doc):
          txt = (para.text or "").strip()
          if txt and any(keyword in txt for keyword in PHOTO_SECTION_KEYWORDS):
              return para
      return doc.add_paragraph(PHOTO_SECTION_HEADING)
  \<close>
  The result is the document (with the heading appended in the last case) and the place
  of the anchor in it.
\<close>

definition has_photo_token :: "para \<Rightarrow> bool" where
  "has_photo_token p \<longleftrightarrow> list_ex (\<lambda>token. str_in token (para_text p)) PHOTO_TOKENS"

definition has_section_keyword :: "para \<Rightarrow> bool" where
  "has_section_keyword p \<longleftrightarrow>
     (let txt = strip (para_text p)
      in txt \<noteq> [] \<and> list_ex (\<lambda>keyword. str_in keyword txt) PHOTO_SECTION_KEYWORDS)"

definition find_photo_anchor :: "document \<Rightarrow> document \<times> loc" where
  "find_photo_anchor doc =
     (case find (\<lambda>(l, p). has_photo_token p) (iter_located doc) of
        Some (l, p) \<Rightarrow> (doc, l)
      | None \<Rightarrow>
          (case find (\<lambda>(l, p). has_section_keyword p) (iter_located doc) of
             Some (l, p) \<Rightarrow> (doc, l)
           | None \<Rightarrow>
               (Document (body doc @ [Para (Paragraph [Text PHOTO_SECTION_HEADING])]),
                InBody (length (body doc)))))"

text \<open>
  The siblings of a place are the blocks of the body or of the cell that holds it;
  \<open>with_siblings l f\<close> applies \<open>f\<close> to them, and \<open>update_paragraph\<close> changes the paragraph
  at the place.
\<close>

fun loc_index :: "loc \<Rightarrow> nat" where
  "loc_index (InBody i) = i"
| "loc_index (InCell i r c j) = j"

fun with_siblings :: "loc \<Rightarrow> (block list \<Rightarrow> block list) \<Rightarrow> document \<Rightarrow> document" where
  "with_siblings (InBody i) f (Document bs) = Document (f bs)"
| "with_siblings (InCell i r c j) f (Document bs) =
     Document (bs[i := (case bs ! i of
                          Para p \<Rightarrow> Para p
                        | Tbl t \<Rightarrow>
                            Tbl (Table ((rows t)[r := (rows t ! r)
                                   [c := Cell (f (content (rows t ! r ! c)))]])))])"

definition update_paragraph :: "loc \<Rightarrow> (para \<Rightarrow> para) \<Rightarrow> document \<Rightarrow> document" where
  "update_paragraph l g doc =
     with_siblings l
       (\<lambda>sibs. sibs[loc_index l := (case sibs ! loc_index l of
                                      Para p \<Rightarrow> Para (g p)
                                    | Tbl t \<Rightarrow> Tbl t)])
       doc"

text \<open>
  The siblings at a place, and the places that exist in a document.
\<close>

fun siblings :: "document \<Rightarrow> loc \<Rightarrow> block list" where
  "siblings doc (InBody i) = body doc"
| "siblings doc (InCell i r c j) =
     (case body doc ! i of Para p \<Rightarrow> [] | Tbl t \<Rightarrow> content (rows t ! r ! c))"

fun valid_loc :: "document \<Rightarrow> loc \<Rightarrow> bool" where
  "valid_loc doc (InBody i) = (i < length (body doc))"
| "valid_loc doc (InCell i r c j) =
     (i < length (body doc) \<and>
      (case body doc ! i of
         Para p \<Rightarrow> False
       | Tbl t \<Rightarrow> r < length (rows t) \<and> c < length (rows t ! r) \<and>
                  j < length (content (rows t ! r ! c))))"

text \<open>
  What the model takes from outside: \<^verbatim>\<open>_prepare_photo_for_word(src, cache_dir)\<close>, which
  decodes, converts and writes image files and returns the path of the prepared file or
  the empty string, and whether \<^verbatim>\<open>run.add_picture\<close> raises (with the text of the exception).
\<close>

record photo_env =
  prepare_photo :: "fs \<Rightarrow> ustr \<Rightarrow> ustr \<Rightarrow> ustr \<times> fs"
  picture_error :: "ustr \<Rightarrow> ustr option"

text \<open>\<^verbatim>\<open>os.path.join\<close> (POSIX) of two components.\<close>

definition os_path_join :: "ustr \<Rightarrow> ustr \<Rightarrow> ustr" where
  "os_path_join a b =
     (if startswith b [47] then b
      else if a = [] \<or> last a = 47 then a @ b
      else a @ [47] @ b)"

definition PHOTO_CACHE :: ustr where
  "PHOTO_CACHE = [95, 112, 104, 111, 116, 111, 95, 99, 97, 99, 104, 101]"

text \<open>
  \<^verbatim>\<open>
  processed = []
  for path in photos:
      if not os.path.exists(path):
          continue
      cooked = _prepare_photo_for_word(path, cache_dir, target_px=1800, debug=debug)
      if cooked:
          processed.append(cooked)
  \<close>
\<close>

fun prepare_photos :: "photo_env \<Rightarrow> fs \<Rightarrow> ustr \<Rightarrow> ustr list \<Rightarrow> ustr list \<times> fs" where
  "prepare_photos env files cache_dir [] = ([], files)"
| "prepare_photos env files cache_dir (path # paths) =
     (if \<not> path_exists files path then prepare_photos env files cache_dir paths
      else case prepare_photo env files path cache_dir of (cooked, files1) \<Rightarrow>
        (case prepare_photos env files1 cache_dir paths of (processed, files2) \<Rightarrow>
           ((if cooked \<noteq> [] then [cooked] else []) @ processed, files2)))"

text \<open>\<^verbatim>\<open>[xs[i : i + n] for i in range(0, len(xs), n)]\<close>.\<close>

function chunks :: "nat \<Rightarrow> 'a list \<Rightarrow> 'a list list" where
  "chunks n xs = (if n = 0 \<or> xs = [] then [] else take n xs # chunks n (drop n xs))"
  by pat_completeness auto
termination
  by (relation "measure (\<lambda>(n, xs). length xs)") auto

declare chunks.simps [simp del]

text \<open>
  The table of one group: one row with one cell for each image. \<^verbatim>\<open>cell.text = ""\<close> leaves
  one paragraph with one empty run; the picture is added in a second run, and when that
  raises the paragraph's text becomes the failure message (U+005B U+56FE U+7247 U+63D2
  U+5165 U+5931 U+8D25 U+FF1A, the base name, a closing bracket, a newline and the text
  of the exception).
\<close>

definition PICTURE_FAILED :: ustr where
  "PICTURE_FAILED = [91, 22270, 29255, 25554, 20837, 22833, 36133, 65306]"

definition photo_cell :: "photo_env \<Rightarrow> ustr \<Rightarrow> cell" where
  "photo_cell env image_path =
     Cell [Para (case picture_error env image_path of
                   None \<Rightarrow> Paragraph [Text [], Picture image_path]
                 | Some exc \<Rightarrow>
                     set_para_text (PICTURE_FAILED @ basename image_path @ [93, 10] @ exc))]"

definition photo_table :: "photo_env \<Rightarrow> ustr list \<Rightarrow> table" where
  "photo_table env group_images = Table (map (\<lambda>image_path. [photo_cell env image_path]) group_images)"

definition page_breaker :: para where
  "page_breaker = Paragraph [PageBreak]"

text \<open>
  \<^verbatim>\<open>
  last_element = anchor._p
  for idx, group in enumerate(groups):
      table = doc.add_table(rows=len(group), cols=1)
      ...
      last_element.addnext(table._tbl)
      last_element = table._tbl
      if idx < len(groups) - 1:
          breaker = doc.add_paragraph()
          breaker.add_run().add_break(WD_BREAK.PAGE)
          last_element.addnext(breaker._p)
          last_element = breaker._p
  \<close>
  \<^verbatim>\<open>doc.add_table\<close> and \<^verbatim>\<open>doc.add_paragraph\<close> append the new element to the body and
  \<^verbatim>\<open>addnext\<close> moves it behind \<^verbatim>\<open>last_element\<close>, among the siblings of the anchor;
  \<open>last_element\<close> is the index of that element among the siblings.
\<close>

definition addnext :: "nat \<Rightarrow> block \<Rightarrow> block list \<Rightarrow> block list" where
  "addnext last_element b sibs = take (Suc last_element) sibs @ [b] @ drop (Suc last_element) sibs"

fun insert_groups ::
  "photo_env \<Rightarrow> nat \<Rightarrow> nat \<Rightarrow> nat \<Rightarrow> ustr list list \<Rightarrow> block list \<Rightarrow> block list" where
  "insert_groups env n_groups idx last_element [] sibs = sibs"
| "insert_groups env n_groups idx last_element (g # gs) sibs =
     (let sibs1 = addnext last_element (Tbl (photo_table env g)) sibs;
          last1 = Suc last_element
      in if idx < n_groups - 1
         then insert_groups env n_groups (Suc idx) (Suc last1) gs
                (addnext last1 (Para page_breaker) sibs1)
         else insert_groups env n_groups (Suc idx) last1 gs sibs1)"

text \<open>
  \<^verbatim>\<open>
  def insert_photos(doc, photos, out_dir, debug=False):
      if not photos:
          return
      cache_dir = os.path.join(out_dir, "_photo_cache")
      processed = ...
      if not processed:
          return
      anchor = _find_photo_anchor(doc)
      _clear_photo_tokens(anchor)
      last_element = anchor._p
      groups = [processed[i : i + PHOTOS_PER_PAGE] for i in range(0, len(processed), PHOTOS_PER_PAGE)]
      for idx, group in enumerate(groups): ...
  \<close>
\<close>

definition insert_photos ::
  "photo_env \<Rightarrow> fs \<Rightarrow> document \<Rightarrow> ustr list \<Rightarrow> ustr \<Rightarrow> document \<times> fs" where
  "insert_photos env files doc photos out_dir =
     (if photos = [] then (doc, files)
      else case prepare_photos env files (os_path_join out_dir PHOTO_CACHE) photos of
        (processed, files1) \<Rightarrow>
          if processed = [] then (doc, files1)
          else case find_photo_anchor doc of (doc1, anchor) \<Rightarrow>
            (let doc2 = update_paragraph anchor clear_photo_tokens doc1;
                 groups = chunks PHOTOS_PER_PAGE processed
             in (with_siblings anchor
                   (insert_groups env (length groups) 0 (loc_index anchor) groups) doc2,
                 files1)))"

section \<open>Report generation\<close>

text \<open>
  The suffix of the report's name (U+65B0 U+5F00 U+6237 U+5C3D U+804C U+8C03 U+67E5
  U+8868) and its extension.
\<close>

definition REPORT_SUFFIX :: ustr where
  "REPORT_SUFFIX = [26032, 24320, 25143, 23613, 32844, 35843, 26597, 34920]"

definition DOCX_EXT :: ustr where
  "DOCX_EXT = [46, 100, 111, 99, 120]"




section \<open>The layout of the photo pages, as the specification words it\<close>

text \<open>
  One table for each batch, in order, with a page break between consecutive tables and
  none after the last: the tables, interspersed with the page break.
\<close>

fun intersperse :: "'a \<Rightarrow> 'a list \<Rightarrow> 'a list" where
  "intersperse sep [] = []"
| "intersperse sep [x] = [x]"
| "intersperse sep (x # y # ys) = x # sep # intersperse sep (y # ys)"

definition count_page_breaks :: "block list \<Rightarrow> nat" where
  "count_page_breaks bs = length (filter (\<lambda>b. b = Para page_breaker) bs)"

text \<open>
  Two environments for examples: one in which no photo can be prepared, and one in which
  every photo is used as it is and every picture can be added.
\<close>

definition failing_env :: photo_env where
  "failing_env =
     \<lparr>prepare_photo = (\<lambda>files src cache_dir. ([], files)), picture_error = (\<lambda>path. None)\<rparr>"

definition copying_env :: photo_env where
  "copying_env =
     \<lparr>prepare_photo = (\<lambda>files src cache_dir. (src, files)), picture_error = (\<lambda>path. None)\<rparr>"

section \<open>Templates\<close>

text \<open>
  A template text, as the substitution expects it: characters other than the opening
  brace, and tokens. A token is two opening braces, whitespace, one of the three keys,
  whitespace and two closing braces. \<open>flat\<close> writes the pieces out, and a text is a
  template text when it can be written so.
\<close>

datatype piece = Lit nat | Tok ustr ustr ustr

fun piece_text :: "piece \<Rightarrow> ustr" where
  "piece_text (Lit c) = [c]"
| "piece_text (Tok key a b) = [123, 123] @ a @ key @ b @ [125, 125]"


definition flat :: "piece list \<Rightarrow> ustr" where
  "flat ps = concat (map piece_text ps)"


text \<open>
  The three substitutions of \<^verbatim>\<open>_apply_patterns\<close>, in the order of the keys, on one text.
\<close>

definition substitute :: "(ustr \<times> ustr) list \<Rightarrow> ustr \<Rightarrow> ustr" where
  "substitute vals t = foldl (\<lambda>s (key, v). fst (subn key v s)) t vals"

text \<open>What a template should become: every token gives way to the value of its key.\<close>

fun filled_piece :: "(ustr \<times> ustr) list \<Rightarrow> piece \<Rightarrow> ustr" where
  "filled_piece vals (Lit c) = [c]"
| "filled_piece vals (Tok key a b) =
     (case map_of vals key of Some v \<Rightarrow> v | None \<Rightarrow> piece_text (Tok key a b))"

definition filled :: "(ustr \<times> ustr) list \<Rightarrow> piece list \<Rightarrow> ustr" where
  "filled vals ps = concat (map (filled_piece vals) ps)"



text \<open>All paragraphs of a document, also those of tables inside cells, at any depth.\<close>

fun deep_block :: "block \<Rightarrow> para list"
  and deep_table :: "table \<Rightarrow> para list"
  and deep_cell :: "cell \<Rightarrow> para list" where
  "deep_block (Para p) = [p]"
| "deep_block (Tbl t) = deep_table t"
| "deep_table (Table rs) = concat (map (\<lambda>row. concat (map deep_cell row)) rs)"
| "deep_cell (Cell bs) = concat (map deep_block bs)"


section \<open>Notions of the proofs\<close>


fun fill_piece :: "ustr \<Rightarrow> ustr \<Rightarrow> piece \<Rightarrow> piece list" where
  "fill_piece key v (Lit c) = [Lit c]"
| "fill_piece key v (Tok key' a b) = (if key' = key then map Lit v else [Tok key' a b])"

definition fill_key :: "ustr \<Rightarrow> ustr \<Rightarrow> piece list \<Rightarrow> piece list" where
  "fill_key key v ps = concat (map (fill_piece key v) ps)"

definition count_tokens :: "ustr \<Rightarrow> piece list \<Rightarrow> nat" where
  "count_tokens key ps = length (filter (\<lambda>p. \<exists>a b. p = Tok key a b) ps)"






section \<open>Properties\<close>

subsection \<open>File names\<close>

lemma UNNAMED_clean: "UNNAMED \<noteq> [] \<and> strip UNNAMED = UNNAMED \<and> set UNNAMED \<inter> forbidden = {}"
  by (simp add: UNNAMED_def strip_def is_space_def forbidden_def)

lemma safe_name_cases:
  "str_or (strip (str_or name UNNAMED)) UNNAMED = (if strip name = [] then UNNAMED else strip name)"
proof (cases "name = []")
  case True
  then show ?thesis using UNNAMED_clean by (simp add: str_or_def strip_def)
next
  case False
  then show ?thesis by (simp add: str_or_def)
qed

lemma sanitize_filename_eq:
  "sanitize_filename name =
     map (\<lambda>c. if c \<in> forbidden then 95 else c) (if strip name = [] then UNNAMED else strip name)"
  by (simp only: sanitize_filename_def Let_def safe_name_cases)

lemma sanitize_filename_nonempty: "sanitize_filename name \<noteq> []"
  using UNNAMED_clean by (simp add: sanitize_filename_eq)

lemma sanitize_filename_clean: "set (sanitize_filename name) \<inter> forbidden = {}"
proof -
  have "(95::nat) \<notin> forbidden" by (simp add: forbidden_def)
  then have "set (map (\<lambda>c. if c \<in> forbidden then 95 else c) s) \<inter> forbidden = {}" for s
    by auto
  then show ?thesis unfolding sanitize_filename_eq .
qed

text \<open>
  C10. For every input string, \<^verbatim>\<open>sanitize_filename\<close> returns a non-empty string that
  contains none of the nine forbidden characters; when the input is empty or consists of
  whitespace only the result is the default name, and otherwise it is the stripped input
  with each forbidden character replaced by an underscore.
\<close>

theorem sanitize_filename_wellformed:
  "sanitize_filename name \<noteq> [] \<and>
   set (sanitize_filename name) \<inter> forbidden = {} \<and>
   sanitize_filename name =
     (if strip name = [] then UNNAMED
      else map (\<lambda>c. if c \<in> forbidden then 95 else c) (strip name))"
proof -
  have "map (\<lambda>c. if c \<in> forbidden then 95 else c) UNNAMED = UNNAMED"
    by (simp add: UNNAMED_def forbidden_def)
  then have "sanitize_filename name =
     (if strip name = [] then UNNAMED
      else map (\<lambda>c. if c \<in> forbidden then 95 else c) (strip name))"
    by (simp add: sanitize_filename_eq)
  with sanitize_filename_nonempty sanitize_filename_clean show ?thesis by blast
qed

text \<open>
  At the name \<^verbatim>\<open>" a/b "\<close> the result is \<^verbatim>\<open>"a_b"\<close>; at the whitespace-only name
  \<^verbatim>\<open>"  "\<close> it is the default name.
\<close>

theorem sanitize_filename_wellformed_witness:
  "sanitize_filename [32, 97, 47, 98, 32] = [97, 95, 98] \<and>
   sanitize_filename [32, 32] = UNNAMED \<and>
   sanitize_filename [47, 47] = [95, 95]"
  using sanitize_filename_wellformed [of "[32, 97, 47, 98, 32]"]
    sanitize_filename_wellformed [of "[32, 32]"]
    sanitize_filename_wellformed [of "[47, 47]"]
  by (simp add: strip_def is_space_def forbidden_def)

subsection \<open>Photo classification\<close>

lemma rules_exclusive:
  "\<not> (rule_visit f \<and> rule_beike f)" "\<not> (rule_visit f \<and> rule_anjuke f)"
  "\<not> (rule_visit f \<and> rule_appraisal f)" "\<not> (rule_beike f \<and> rule_anjuke f)"
  "\<not> (rule_beike f \<and> rule_appraisal f)" "\<not> (rule_anjuke f \<and> rule_appraisal f)"
  by (auto simp: rule_beike_def rule_anjuke_def rule_appraisal_def)

lemma classify_step_rules:
  "classify_step info f =
     (if rule_visit f then info\<lparr>visit_photos := visit_photos info @ [f]\<rparr>
      else if rule_beike f then info\<lparr>beike_query := beike_query info @ [f]\<rparr>
      else if rule_anjuke f then info\<lparr>anjuke_query := anjuke_query info @ [f]\<rparr>
      else if rule_appraisal f then info\<lparr>appraisal := appraisal info @ [f]\<rparr>
      else info)"
  by (simp add: classify_step_def Let_def rule_visit_def rule_beike_def rule_anjuke_def
      rule_appraisal_def)

lemma classify_fold:
  "foldl classify_step info files =
     \<lparr>visit_photos = visit_photos info @ filter rule_visit files,
      beike_query = beike_query info @ filter rule_beike files,
      anjuke_query = anjuke_query info @ filter rule_anjuke files,
      appraisal = appraisal info @ filter rule_appraisal files\<rparr>"
proof (induction files arbitrary: info)
  case Nil
  show ?case by simp
next
  case (Cons f files)
  have step: "foldl classify_step info (f # files) = foldl classify_step (classify_step info f) files"
    by simp
  show ?case
    unfolding step Cons.IH
    using rules_exclusive [of f]
    by (auto simp: classify_step_rules)
qed

text \<open>
  C8. \<^verbatim>\<open>classify_photos\<close> puts into each bucket exactly the files whose base name
  meets that bucket's rule and none of the rules before it, in the order of the input
  list; the four rules exclude one another, so no file is in two buckets, and a file
  that meets no rule is in no bucket.
\<close>

theorem classify_photos_first_match:
  "classify_photos files =
     \<lparr>visit_photos = filter rule_visit files,
      beike_query = filter rule_beike files,
      anjuke_query = filter rule_anjuke files,
      appraisal = filter rule_appraisal files\<rparr> \<and>
   set (visit_photos (classify_photos files)) \<inter> set (beike_query (classify_photos files)) = {} \<and>
   set (visit_photos (classify_photos files)) \<inter> set (anjuke_query (classify_photos files)) = {} \<and>
   set (visit_photos (classify_photos files)) \<inter> set (appraisal (classify_photos files)) = {} \<and>
   set (beike_query (classify_photos files)) \<inter> set (anjuke_query (classify_photos files)) = {} \<and>
   set (beike_query (classify_photos files)) \<inter> set (appraisal (classify_photos files)) = {} \<and>
   set (anjuke_query (classify_photos files)) \<inter> set (appraisal (classify_photos files)) = {}"
proof -
  have eq: "classify_photos files =
     \<lparr>visit_photos = filter rule_visit files,
      beike_query = filter rule_beike files,
      anjuke_query = filter rule_anjuke files,
      appraisal = filter rule_appraisal files\<rparr>"
    by (simp add: classify_photos_def classify_fold)
  show ?thesis
    unfolding eq using rules_exclusive by auto
qed

text \<open>
  Five files: one whose name starts with the visit keyword, one under a directory whose
  name contains the Beike keyword, one that meets no rule, one with the query keyword,
  and one that contains both the Beike and the visit keyword but does not start with the
  latter.
\<close>

theorem classify_photos_first_match_witness:
  "classify_photos
     [[36208, 35775, 49], [97, 47, 36125, 22771], [97], [26597, 35810],
      [36125, 22771, 36208, 35775]] =
   \<lparr>visit_photos = [[36208, 35775, 49]],
    beike_query = [[97, 47, 36125, 22771], [36125, 22771, 36208, 35775]],
    anjuke_query = [],
    appraisal = [[26597, 35810]]\<rparr>"
  using classify_photos_first_match
    [of "[[36208, 35775, 49], [97, 47, 36125, 22771], [97], [26597, 35810],
          [36125, 22771, 36208, 35775]]"]
  by (simp add: rule_visit_def rule_beike_def rule_anjuke_def rule_appraisal_def basename_def
      KW_VISIT_def KW_BEIKE_def KW_ANJUKE_def KW_APPRAISAL_def KW_QUERY_def)

subsection \<open>Output paths that do not collide\<close>

text \<open>Decimal numerals are read back by \<open>digits_value\<close>, so \<open>str_nat\<close> is injective.\<close>

lemma digits_value_str_nat: "foldl (\<lambda>a d. 10 * a + (d - 48)) 0 (str_nat n) = n"
proof (induction n rule: str_nat.induct)
  case (1 n)
  show ?case
  proof (cases "n < 10")
    case True
    then show ?thesis by (subst str_nat.simps) simp
  next
    case False
    with 1 show ?thesis by (subst str_nat.simps) simp
  qed
qed

lemma str_nat_inj: "str_nat m = str_nat n \<Longrightarrow> m = n"
  by (metis digits_value_str_nat)

lemma candidate_inj: "candidate rt i ext = candidate rt j ext \<Longrightarrow> i = j"
  by (simp add: candidate_def str_nat_inj)

lemma free_candidate:
  assumes "finite (dom files)"
  shows "\<exists>i\<ge>1. \<not> path_exists files (candidate rt i ext)"
proof (rule ccontr)
  assume "\<not> ?thesis"
  then have all: "\<And>i. 1 \<le> i \<Longrightarrow> candidate rt i ext \<in> dom files"
    by (auto simp: path_exists_def)
  have "inj_on (\<lambda>i. candidate rt i ext) {1..}"
    by (rule inj_onI) (rule candidate_inj)
  moreover have "infinite {1::nat ..}"
    by (simp add: infinite_Ici)
  ultimately have "infinite ((\<lambda>i. candidate rt i ext) ` {1..})"
    by (simp add: finite_image_iff)
  moreover have "(\<lambda>i. candidate rt i ext) ` {1..} \<subseteq> dom files"
    using all by auto
  ultimately show False
    using assms finite_subset by blast
qed

lemma next_candidate_first:
  assumes "\<not> path_exists files (candidate rt i ext)"
    and "k \<le> i"
    and "\<And>j. k \<le> j \<Longrightarrow> j < i \<Longrightarrow> path_exists files (candidate rt j ext)"
  shows "next_candidate files rt ext k = Some (candidate rt i ext)"
  using assms
proof (induction "i - k" arbitrary: k)
  case 0
  then have "k = i" by simp
  with 0 show ?case by (subst next_candidate.simps) simp
next
  case (Suc d)
  then have lt: "k < i" by simp
  with Suc.prems have ex: "path_exists files (candidate rt k ext)" by simp
  have "next_candidate files rt ext (k + 1) = Some (candidate rt i ext)"
    using Suc lt by (intro Suc.hyps(1)) auto
  with ex show ?case by (subst next_candidate.simps) simp
qed

lemma basename_append:
  "47 \<notin> set d \<Longrightarrow> basename (x @ d) = basename x @ d"
proof -
  assume "47 \<notin> set d"
  then have "takeWhile (\<lambda>c. c \<noteq> 47) (rev d @ rev x) = rev d @ takeWhile (\<lambda>c. c \<noteq> 47) (rev x)"
    by (intro takeWhile_append2) auto
  then show ?thesis by (simp add: basename_def)
qed

lemma splitext_docx:
  assumes "\<not> list_all (\<lambda>c. c = 46) (basename x)"
  shows "splitext (x @ DOCX_EXT) = (x, DOCX_EXT)"
proof -
  have b: "basename (x @ DOCX_EXT) = basename x @ DOCX_EXT"
    by (rule basename_append) (simp add: DOCX_EXT_def)
  have e: "rev (takeWhile (\<lambda>c. c \<noteq> 46) (rev (basename x @ DOCX_EXT))) = [100, 111, 99, 120]"
    by (simp add: DOCX_EXT_def)
  have l: "length DOCX_EXT = 5" by (simp add: DOCX_EXT_def)
  show ?thesis
    using assms by (simp add: splitext_def b e l Let_def) (simp add: DOCX_EXT_def)
qed

lemma report_name_splitext:
  "splitext (os_path_join outdir (sanitize_filename name @ REPORT_SUFFIX @ DOCX_EXT)) =
     (os_path_join outdir (sanitize_filename name @ REPORT_SUFFIX), DOCX_EXT)"
proof -
  let ?n = "sanitize_filename name @ REPORT_SUFFIX"
  have ns: "47 \<notin> set ?n"
    using sanitize_filename_clean [of name] by (auto simp: forbidden_def REPORT_SUFFIX_def)
  have st: "\<not> startswith (?n @ d) [47]" for d
    using sanitize_filename_nonempty [of name] ns by (cases "sanitize_filename name") auto
  have j: "os_path_join outdir (sanitize_filename name @ REPORT_SUFFIX @ DOCX_EXT) =
           os_path_join outdir ?n @ DOCX_EXT"
    using st [of DOCX_EXT] st [of "[]"] by (simp add: os_path_join_def)
  have "basename (os_path_join outdir ?n) = ?n"
  proof -
    have "os_path_join outdir ?n = outdir @ ?n \<and> (outdir = [] \<or> last outdir = 47) \<or>
          os_path_join outdir ?n = (outdir @ [47]) @ ?n"
      using st [of "[]"] by (auto simp: os_path_join_def)
    then show ?thesis
    proof
      assume a: "os_path_join outdir ?n = outdir @ ?n \<and> (outdir = [] \<or> last outdir = 47)"
      then have "basename (outdir @ ?n) = basename outdir @ ?n"
        using ns by (intro basename_append)
      moreover have "basename outdir = []"
        using a by (cases outdir rule: rev_cases) (auto simp: basename_def)
      ultimately show ?thesis using a by simp
    next
      assume a: "os_path_join outdir ?n = (outdir @ [47]) @ ?n"
      have "basename ((outdir @ [47]) @ ?n) = basename (outdir @ [47]) @ ?n"
        using ns by (intro basename_append)
      moreover have "basename (outdir @ [47]) = []" by (simp add: basename_def)
      ultimately show ?thesis using a by simp
    qed
  qed
  then have "\<not> list_all (\<lambda>c. c = 46) (basename (os_path_join outdir ?n))"
    by (simp add: REPORT_SUFFIX_def)
  then show ?thesis unfolding j by (rule splitext_docx)
qed

lemma next_nonconflicting_path_spec:
  assumes "finite (dom files)"
  shows "\<exists>p. next_nonconflicting_path files path = Some p \<and>
           \<not> path_exists files p \<and>
           (\<not> path_exists files path \<longrightarrow> p = path) \<and>
           (path_exists files path \<longrightarrow>
              (\<exists>i\<ge>1. p = candidate (fst (splitext path)) i (snd (splitext path)) \<and>
                 (\<forall>j. 1 \<le> j \<and> j < i \<longrightarrow>
                    path_exists files (candidate (fst (splitext path)) j (snd (splitext path)))))) \<and>
           (\<forall>q. path_exists files q \<longrightarrow> save_docx files p d q = files q)"
proof (cases "path_exists files path")
  case False
  then show ?thesis
    by (auto simp: next_nonconflicting_path_def save_docx_def)
next
  case True
  obtain rt ext where se: "splitext path = (rt, ext)"
    by (cases "splitext path")
  define P where "P i \<longleftrightarrow> 1 \<le> i \<and> \<not> path_exists files (candidate rt i ext)" for i
  from free_candidate [OF assms, of rt ext] have "\<exists>i. P i"
    by (auto simp: P_def)
  then have least: "P (LEAST i. P i)"
    by (rule LeastI_ex)
  define i where "i = (LEAST i. P i)"
  have Pi: "1 \<le> i" "\<not> path_exists files (candidate rt i ext)"
    using least by (simp_all add: i_def P_def)
  have below: "path_exists files (candidate rt j ext)" if "1 \<le> j" "j < i" for j
  proof (rule ccontr)
    assume "\<not> ?thesis"
    with that have "P j" by (simp add: P_def)
    then have "i \<le> j" unfolding i_def by (rule Least_le)
    with that show False by simp
  qed
  have "next_candidate files rt ext 1 = Some (candidate rt i ext)"
    using Pi below by (intro next_candidate_first) auto
  then have res: "next_nonconflicting_path files path = Some (candidate rt i ext)"
    using True by (simp add: next_nonconflicting_path_def se)
  have keep: "\<forall>q. path_exists files q \<longrightarrow> save_docx files (candidate rt i ext) d q = files q"
    using Pi(2) by (auto simp: save_docx_def)
  show ?thesis
    using res Pi below True keep by (auto simp: se)
qed

text \<open>
  C7. In a file system with finitely many names, \<^verbatim>\<open>next_nonconflicting_path\<close> returns:
  the path itself when nothing exists there, and otherwise the candidate
  \<^verbatim>\<open>root (i)ext\<close> with the least index \<open>i \<ge> 1\<close> that does not exist. So when only
  the path exists the result is candidate 1, and when the path and candidate 1 exist it
  is candidate 2. The returned path names nothing, hence saving the document there leaves
  every existing file as it was. For a path \<^verbatim>\<open>X.docx\<close> (the name before the extension
  not made of dots only) the root is \<^verbatim>\<open>X\<close> and the extension \<^verbatim>\<open>.docx\<close>, so the
  candidates are \<^verbatim>\<open>X (1).docx\<close>, \<^verbatim>\<open>X (2).docx\<close> and so on.
\<close>

theorem next_nonconflicting_path_first_free:
  assumes "finite (dom files)"
  shows "\<exists>p. next_nonconflicting_path files path = Some p \<and>
           \<not> path_exists files p \<and>
           (\<not> path_exists files path \<longrightarrow> p = path) \<and>
           (path_exists files path \<longrightarrow>
              (\<exists>i\<ge>1. p = candidate (fst (splitext path)) i (snd (splitext path)) \<and>
                 (\<forall>j. 1 \<le> j \<and> j < i \<longrightarrow>
                    path_exists files (candidate (fst (splitext path)) j (snd (splitext path)))))) \<and>
           (\<forall>q. path_exists files q \<longrightarrow> save_docx files p d q = files q) \<and>
           (\<forall>x. path = x @ DOCX_EXT \<and> \<not> list_all (\<lambda>c. c = 46) (basename x) \<longrightarrow>
              splitext path = (x, DOCX_EXT))"
proof -
  have "\<forall>x. path = x @ DOCX_EXT \<and> \<not> list_all (\<lambda>c. c = 46) (basename x) \<longrightarrow>
          splitext path = (x, DOCX_EXT)"
    using splitext_docx by blast
  with next_nonconflicting_path_spec [OF assms, of path d] show ?thesis
    by blast
qed

text \<open>
  The directory holds \<^verbatim>\<open>a.docx\<close> and \<^verbatim>\<open>a (1).docx\<close>: the third generation is saved as
  \<^verbatim>\<open>a (2).docx\<close>, and both earlier files stay as they were.
\<close>

theorem next_nonconflicting_path_first_free_witness:
  "finite (dom ([[97, 46, 100, 111, 99, 120] \<mapsto> Other,
                 [97, 32, 40, 49, 41, 46, 100, 111, 99, 120] \<mapsto> Other] :: fs)) \<and>
   next_nonconflicting_path
     [[97, 46, 100, 111, 99, 120] \<mapsto> Other,
      [97, 32, 40, 49, 41, 46, 100, 111, 99, 120] \<mapsto> Other]
     [97, 46, 100, 111, 99, 120] = Some [97, 32, 40, 50, 41, 46, 100, 111, 99, 120] \<and>
   \<not> path_exists
     [[97, 46, 100, 111, 99, 120] \<mapsto> Other,
      [97, 32, 40, 49, 41, 46, 100, 111, 99, 120] \<mapsto> Other]
     [97, 32, 40, 50, 41, 46, 100, 111, 99, 120] \<and>
   save_docx
     [[97, 46, 100, 111, 99, 120] \<mapsto> Other,
      [97, 32, 40, 49, 41, 46, 100, 111, 99, 120] \<mapsto> Other]
     [97, 32, 40, 50, 41, 46, 100, 111, 99, 120] (Document [])
     [97, 32, 40, 49, 41, 46, 100, 111, 99, 120] = Some Other"
proof -
  let ?fs = "[[97, 46, 100, 111, 99, 120] \<mapsto> Other,
              [97, 32, 40, 49, 41, 46, 100, 111, 99, 120] \<mapsto> Other] :: fs"
  let ?path = "[97, 46, 100, 111, 99, 120] :: ustr"
  let ?second = "[97, 32, 40, 49, 41, 46, 100, 111, 99, 120] :: ustr"
  let ?third = "[97, 32, 40, 50, 41, 46, 100, 111, 99, 120] :: ustr"
  have fin: "finite (dom ?fs)" by simp
  from next_nonconflicting_path_first_free [OF fin, of ?path "Document []"]
  obtain p where p: "next_nonconflicting_path ?fs ?path = Some p"
    and free: "\<not> path_exists ?fs p"
    and keep: "\<forall>q. path_exists ?fs q \<longrightarrow> save_docx ?fs p (Document []) q = ?fs q"
    by blast
  have ev: "next_nonconflicting_path ?fs ?path = Some ?third"
    by (simp add: next_nonconflicting_path_def path_exists_def splitext_def basename_def
        next_candidate.simps candidate_def)
  with p have eq: "p = ?third" by simp
  have "path_exists ?fs ?second" by (simp add: path_exists_def)
  with keep have "save_docx ?fs p (Document []) ?second = ?fs ?second" by blast
  then have kept: "save_docx ?fs ?third (Document []) ?second = Some Other"
    unfolding eq by simp
  from fin ev free [unfolded eq] kept show ?thesis by blast
qed

subsection \<open>The wizard\<close>

text \<open>
  C9. The operator answers the first two prompts (with \<^verbatim>\<open>x\<close> and \<^verbatim>\<open>y\<close>) and enters
  \<^verbatim>\<open>B\<close> at the third. The wizard announces that the second key is to be filled in again,
  and then prompts for the first key, with both answers discarded: it does not go back
  to the previous field.
\<close>

theorem interactive_back_restarts:
  "interactive [[120], [121], [66]] =
     ([Prompt KEY_CUSTOMER, Prompt KEY_INDUSTRY, Prompt KEY_ADDRESS,
       Print (RefillPrevious KEY_INDUSTRY), Prompt KEY_CUSTOMER], EndOfInput)"
  by (simp add: interactive_def PLACEHOLDER_KEYS_def prompt_def strip_def is_space_def BACK_def
      key_index_def KEY_CUSTOMER_def KEY_INDUSTRY_def KEY_ADDRESS_def)

subsection \<open>Letterboxing\<close>

lemma rounding_exact: "rounding exact"
  by (simp add: rounding_def exact_def)

lemma rounding_mono: "rounding fl \<Longrightarrow> x \<le> y \<Longrightarrow> fl x \<le> fl y"
  by (simp add: rounding_def)

lemma rounding_int: "rounding fl \<Longrightarrow> \<bar>n\<bar> \<le> 2 ^ 53 \<Longrightarrow> fl (of_int n) = of_int n"
  by (simp add: rounding_def)

lemma rounding_rel:
  "rounding fl \<Longrightarrow> 1 \<le> \<bar>x\<bar> * 2 ^ 64 \<Longrightarrow> \<bar>x\<bar> \<le> 2 ^ 64 \<Longrightarrow> \<bar>fl x - x\<bar> * 2 ^ 53 \<le> \<bar>x\<bar>"
  unfolding rounding_def by blast

lemma rounding_upper:
  assumes "rounding fl" "0 < x" "1 \<le> x * 2 ^ 64" "x \<le> 2 ^ 64"
  shows "fl x \<le> x + x / 2 ^ 53"
proof -
  from assms have "\<bar>fl x - x\<bar> * 2 ^ 53 \<le> \<bar>x\<bar>"
    by (intro rounding_rel) simp_all
  moreover have "(fl x - x) * 2 ^ 53 \<le> \<bar>fl x - x\<bar> * 2 ^ 53"
    by (intro mult_right_mono) simp_all
  ultimately have "(fl x - x) * 2 ^ 53 \<le> x"
    using assms(2) by simp
  then have "fl x - x \<le> x / 2 ^ 53"
    by (simp add: pos_le_divide_eq)
  then show ?thesis by simp
qed

lemma rounding_lower:
  assumes "rounding fl" "0 < x" "1 \<le> x * 2 ^ 64" "x \<le> 2 ^ 64"
  shows "x / 2 \<le> fl x"
proof -
  from assms have "\<bar>fl x - x\<bar> * 2 ^ 53 \<le> \<bar>x\<bar>"
    by (intro rounding_rel) simp_all
  moreover have "(x - fl x) * 2 ^ 53 \<le> \<bar>fl x - x\<bar> * 2 ^ 53"
    by (intro mult_right_mono) simp_all
  ultimately have "(x - fl x) * 2 ^ 53 \<le> x"
    using assms(2) by simp
  then have "x - fl x \<le> x / 2 ^ 53"
    by (simp add: pos_le_divide_eq)
  moreover have "x / 2 ^ 53 \<le> x / 2"
    using assms(2) by (simp add: frac_le)
  ultimately show ?thesis by simp
qed

lemma rounding_lower_tight:
  assumes "rounding fl" "0 < x" "1 \<le> x * 2 ^ 64" "x \<le> 2 ^ 64"
  shows "x - x / 2 ^ 53 \<le> fl x"
proof -
  from assms have "\<bar>fl x - x\<bar> * 2 ^ 53 \<le> \<bar>x\<bar>"
    by (intro rounding_rel) simp_all
  moreover have "(x - fl x) * 2 ^ 53 \<le> \<bar>fl x - x\<bar> * 2 ^ 53"
    by (intro mult_right_mono) simp_all
  ultimately have "(x - fl x) * 2 ^ 53 \<le> x"
    using assms(2) by simp
  then have "x - fl x \<le> x / 2 ^ 53"
    by (simp add: pos_le_divide_eq)
  then show ?thesis by simp
qed

lemma rounding_zero: "rounding fl \<Longrightarrow> fl 0 = 0"
  using rounding_int [of fl 0] by simp

lemma rounding_one: "rounding fl \<Longrightarrow> fl 1 = 1"
  using rounding_int [of fl 1] by simp

lemma rounding_nonneg: "rounding fl \<Longrightarrow> 0 \<le> x \<Longrightarrow> 0 \<le> fl x"
  using rounding_mono [of fl 0 x] rounding_zero [of fl] by simp


text \<open>The two quotients and the scale, for an image of positive size below 2^31.\<close>

lemma quotient_bounds:
  assumes "rounding fl" "0 < n" "n < 2 ^ 31" "0 < t" "t \<le> 2200"
  shows "rat_of_int t / rat_of_int n / 2 \<le> fl (rat_of_int t / rat_of_int n)"
    and "fl (rat_of_int t / rat_of_int n) \<le>
           rat_of_int t / rat_of_int n + rat_of_int t / rat_of_int n / 2 ^ 53"
proof -
  let ?x = "rat_of_int t / rat_of_int n"
  have n: "0 < rat_of_int n" "rat_of_int n \<le> 2 ^ 31"
    using assms(2,3) by (simp_all add: of_int_le_iff [where 'a = rat and w = n and z = "2 ^ 31", simplified])
  have t: "1 \<le> rat_of_int t" "rat_of_int t \<le> 2200"
    using assms(4,5) by (simp_all add: of_int_le_iff [where 'a = rat and w = t and z = 2200, simplified])
  have pos: "0 < ?x" using n t by simp
  have "rat_of_int n \<le> rat_of_int t * 2 ^ 64"
  proof -
    have "rat_of_int n \<le> 1 * 2 ^ 31" using n by simp
    also have "\<dots> \<le> rat_of_int t * 2 ^ 64"
      using t(1) by (intro mult_mono) simp_all
    finally show ?thesis .
  qed
  then have lo: "1 \<le> ?x * 2 ^ 64"
    using n by (simp add: pos_le_divide_eq)
  have "?x \<le> rat_of_int t / 1"
    using n t assms(2) by (intro divide_left_mono) simp_all
  then have hi: "?x \<le> 2 ^ 64" using t by simp
  show "?x / 2 \<le> fl ?x" by (rule rounding_lower [OF assms(1) pos lo hi])
  show "fl ?x \<le> ?x + ?x / 2 ^ 53" by (rule rounding_upper [OF assms(1) pos lo hi])
qed


lemma py_int_nonneg: "0 \<le> x \<Longrightarrow> py_int x = \<lfloor>x\<rfloor>"
  by (simp add: py_int_def)

lemma resized_bounds:
  assumes r: "rounding fl" and n: "0 < n" "n < 2 ^ 31" and t: "0 < t" "t \<le> 2200"
    and s: "0 \<le> s" "s \<le> 1" "s \<le> fl (rat_of_int t / rat_of_int n)"
  shows "0 \<le> py_int (fl (rat_of_int n * s))"
    and "py_int (fl (rat_of_int n * s)) \<le> n"
    and "py_int (fl (rat_of_int n * s)) \<le> t"
proof -
  let ?x = "rat_of_int t / rat_of_int n"
  let ?p = "rat_of_int n * s"
  have np: "0 < rat_of_int n" using n by simp
  have tp: "1 \<le> rat_of_int t" "rat_of_int t \<le> 2200"
    using t by (simp_all add: of_int_le_iff [where 'a = rat and w = t and z = 2200, simplified])
  have p0: "0 \<le> ?p" using np s(1) by simp
  have f0: "0 \<le> fl ?p" by (rule rounding_nonneg [OF r p0])
  then have fl_eq: "py_int (fl ?p) = \<lfloor>fl ?p\<rfloor>" by (rule py_int_nonneg)
  show "0 \<le> py_int (fl ?p)" using f0 by (simp add: fl_eq)
  have "?p \<le> rat_of_int n * 1"
    using np s(2) by (intro mult_left_mono) simp_all
  then have "fl ?p \<le> fl (rat_of_int n)"
    using rounding_mono [OF r] by simp
  also have "fl (rat_of_int n) = rat_of_int n"
    using n by (intro rounding_int [OF r]) simp
  finally have "\<lfloor>fl ?p\<rfloor> \<le> \<lfloor>rat_of_int n\<rfloor>" by (rule floor_mono)
  then show "py_int (fl ?p) \<le> n" by (simp add: fl_eq)
  let ?y = "rat_of_int t + rat_of_int t / 2 ^ 53"
  have "?p \<le> rat_of_int n * fl ?x"
    using np s(3) by (intro mult_left_mono) simp_all
  also have "\<dots> \<le> rat_of_int n * (?x + ?x / 2 ^ 53)"
    using np quotient_bounds(2) [OF r n t] by (intro mult_left_mono) simp_all
  also have "\<dots> = ?y"
    using np by (simp add: field_simps)
  finally have "fl ?p \<le> fl ?y"
    by (rule rounding_mono [OF r])
  also have "fl ?y \<le> ?y + ?y / 2 ^ 53"
    using tp by (intro rounding_upper [OF r]) simp_all
  also have "\<dots> < rat_of_int t + 1"
    using tp by simp
  finally have "fl ?p < rat_of_int (t + 1)"
    by simp
  then have "\<lfloor>fl ?p\<rfloor> < t + 1"
    by (simp only: floor_less_iff)
  then show "py_int (fl ?p) \<le> t" by (simp add: fl_eq)
qed

lemma resized_pos:
  assumes r: "rounding fl" and p: "1 \<le> rat_of_int n * s"
  shows "1 \<le> py_int (fl (rat_of_int n * s))"
proof -
  have "fl 1 \<le> fl (rat_of_int n * s)"
    by (rule rounding_mono [OF r p])
  then have one: "1 \<le> fl (rat_of_int n * s)"
    by (simp add: rounding_one [OF r])
  then have "py_int (fl (rat_of_int n * s)) = \<lfloor>fl (rat_of_int n * s)\<rfloor>"
    by (intro py_int_nonneg) simp
  with one show ?thesis by (simp add: le_floor_iff)
qed


lemma letterbox_canvas:
  assumes "0 < w" "0 < h"
  shows "letterbox_image fl (w, h) CANVAS_SIZE CANVAS_MARGIN =
     (let s = min (fl (2040 / rat_of_int w)) (min (fl (1490 / rat_of_int h)) 1);
          rw = py_int (fl (rat_of_int w * s));
          rh = py_int (fl (rat_of_int h * s))
      in if rw < 1 \<or> rh < 1 then Inl ResizeError
         else Inr \<lparr>factor = s, resized = (rw, rh),
                   offset = ((2200 - rw) div 2, (1650 - rh) div 2)\<rparr>)"
  using assms by (simp add: letterbox_image_def CANVAS_SIZE_def CANVAS_MARGIN_def Let_def)

lemma scale_bounds:
  assumes r: "rounding fl" and w: "0 < w" "w < 2 ^ 31" and h: "0 < h" "h < 2 ^ 31"
  defines "s \<equiv> min (fl (2040 / rat_of_int w)) (min (fl (1490 / rat_of_int h)) 1)"
  shows "0 \<le> s" "s \<le> 1" "s \<le> fl (rat_of_int 2040 / rat_of_int w)"
    "s \<le> fl (rat_of_int 1490 / rat_of_int h)"
    "min (1020 / rat_of_int w) (min (745 / rat_of_int h) 1) \<le> s"
proof -
  have a: "rat_of_int 2040 / rat_of_int w / 2 \<le> fl (rat_of_int 2040 / rat_of_int w)"
    by (rule quotient_bounds(1) [OF r w]) simp_all
  have b: "rat_of_int 1490 / rat_of_int h / 2 \<le> fl (rat_of_int 1490 / rat_of_int h)"
    by (rule quotient_bounds(1) [OF r h]) simp_all
  have wp: "0 < rat_of_int w" and hp: "0 < rat_of_int h" using w h by simp_all
  have a0: "0 \<le> fl (2040 / rat_of_int w)" using wp by (intro rounding_nonneg [OF r]) simp
  have b0: "0 \<le> fl (1490 / rat_of_int h)" using hp by (intro rounding_nonneg [OF r]) simp
  show "0 \<le> s" using a0 b0 by (simp add: s_def)
  show "s \<le> 1" by (simp add: s_def)
  show "s \<le> fl (rat_of_int 2040 / rat_of_int w)" by (simp add: s_def)
  show "s \<le> fl (rat_of_int 1490 / rat_of_int h)" by (simp add: s_def min.coboundedI2)
  show "min (1020 / rat_of_int w) (min (745 / rat_of_int h) 1) \<le> s"
    using a b unfolding s_def by (intro min.mono) simp_all
qed

lemma floor_rat_numeral:
  "\<lfloor>numeral a / numeral b :: rat\<rfloor> = numeral a div numeral b"
  by (metis floor_divide_of_int_eq of_int_numeral)

text \<open>
  C6. For every image of positive width and height (below \<open>2^31\<close>, as the image library
  stores them), on the canvas of the program: the scale is the least of the two rounded
  quotients of the available width and height (the canvas less twice the margin) by the
  image's width and height, and one; the resized width and height are the truncations
  of the rounded products of the image's width and height with that one scale, so the
  aspect ratio is kept up to the truncation; the scale is at most one and the resized
  image is never larger than the original. The function returns this placement, unless
  a resized side is below one pixel.
\<close>

theorem letterbox_scale_never_upscales:
  assumes "rounding fl" "0 < w" "w < 2 ^ 31" "0 < h" "h < 2 ^ 31"
  shows "\<exists>s rw rh.
           s = min (fl (rat_of_int (2200 - 2 * 80) / rat_of_int w))
                 (min (fl (rat_of_int (1650 - 2 * 80) / rat_of_int h)) 1) \<and>
           rw = py_int (fl (rat_of_int w * s)) \<and> rh = py_int (fl (rat_of_int h * s)) \<and>
           s \<le> 1 \<and> 0 \<le> rw \<and> rw \<le> w \<and> 0 \<le> rh \<and> rh \<le> h \<and>
           letterbox_image fl (w, h) CANVAS_SIZE CANVAS_MARGIN =
             (if rw < 1 \<or> rh < 1 then Inl ResizeError
              else Inr \<lparr>factor = s, resized = (rw, rh),
                        offset = ((2200 - rw) div 2, (1650 - rh) div 2)\<rparr>)"
proof -
  define s where "s = min (fl (2040 / rat_of_int w)) (min (fl (1490 / rat_of_int h)) 1)"
  define rw where "rw = py_int (fl (rat_of_int w * s))"
  define rh where "rh = py_int (fl (rat_of_int h * s))"
  note sb = scale_bounds [OF assms, folded s_def]
  have s_eq: "s = min (fl (rat_of_int (2200 - 2 * 80) / rat_of_int w))
                 (min (fl (rat_of_int (1650 - 2 * 80) / rat_of_int h)) 1)"
    by (simp add: s_def)
  have w_b: "0 \<le> rw" "rw \<le> w"
    unfolding rw_def using resized_bounds(1,2) [OF assms(1) assms(2,3) _ _ sb(1,2,3)] by simp_all
  have h_b: "0 \<le> rh" "rh \<le> h"
    unfolding rh_def using resized_bounds(1,2) [OF assms(1) assms(4,5) _ _ sb(1,2,4)] by simp_all
  have res: "letterbox_image fl (w, h) CANVAS_SIZE CANVAS_MARGIN =
      (if rw < 1 \<or> rh < 1 then Inl ResizeError
       else Inr \<lparr>factor = s, resized = (rw, rh),
                 offset = ((2200 - rw) div 2, (1650 - rh) div 2)\<rparr>)"
    unfolding letterbox_canvas [OF assms(2,4)] Let_def s_def rw_def rh_def ..
  from s_eq rw_def rh_def sb(2) w_b h_b res show ?thesis
    by blast
qed


text \<open>A tall image of 1000 by 3000 pixels is scaled by 149/300 to 496 by 1490.\<close>

theorem letterbox_scale_never_upscales_witness:
  "rounding exact \<and>
   letterbox_image exact (1000, 3000) CANVAS_SIZE CANVAS_MARGIN =
     Inr \<lparr>factor = 149 / 300, resized = (496, 1490), offset = (852, 80)\<rparr>"
proof -
  have b: "(0::int) < 1000" "(1000::int) < 2 ^ 31" "(0::int) < 3000" "(3000::int) < 2 ^ 31"
    by simp_all
  from letterbox_scale_never_upscales [OF rounding_exact b]
  obtain s rw rh where s: "s = min (exact (rat_of_int (2200 - 2 * 80) / rat_of_int 1000))
                 (min (exact (rat_of_int (1650 - 2 * 80) / rat_of_int 3000)) 1)"
    and rw: "rw = py_int (exact (rat_of_int 1000 * s))"
    and rh: "rh = py_int (exact (rat_of_int 3000 * s))"
    and res: "letterbox_image exact (1000, 3000) CANVAS_SIZE CANVAS_MARGIN =
             (if rw < 1 \<or> rh < 1 then Inl ResizeError
              else Inr \<lparr>factor = s, resized = (rw, rh),
                        offset = ((2200 - rw) div 2, (1650 - rh) div 2)\<rparr>)"
    by blast
  have s': "s = 149 / 300" unfolding s by (simp add: exact_def)
  have rw': "rw = 496" unfolding rw s' by (simp add: exact_def py_int_def floor_rat_numeral)
  have rh': "rh = 1490" unfolding rh s' by (simp add: exact_def py_int_def floor_rat_numeral)
  from res have "letterbox_image exact (1000, 3000) CANVAS_SIZE CANVAS_MARGIN =
     Inr \<lparr>factor = 149 / 300, resized = (496, 1490), offset = (852, 80)\<rparr>"
    unfolding s' rw' rh' by simp
  with rounding_exact show ?thesis by blast
qed

lemma centred_div2:
  fixes c r :: int
  shows "c - ((c - r) div 2 + r) = (c - r) div 2 \<or> c - ((c - r) div 2 + r) = (c - r) div 2 + 1"
  by presburger

text \<open>
  C5 (as amended). For every image with the aspect ratio of the canvas, the image is
  placed: it is scaled to at least one pixel and at most its own size, it lies inside
  the margin of 80 pixels on every side, so nothing is cropped, and it is centred: the
  right border is the left border or one pixel more, and the bottom border is the top
  border or one pixel more. The left border is always wider than the top border.
\<close>

theorem letterbox_centred:
  assumes "rounding fl" "0 < w" "w < 2 ^ 31" "0 < h" "h < 2 ^ 31" "w * 1650 = h * 2200"
  shows "\<exists>p. letterbox_image fl (w, h) CANVAS_SIZE CANVAS_MARGIN = Inr p \<and>
           1 \<le> fst (resized p) \<and> fst (resized p) \<le> w \<and>
           1 \<le> snd (resized p) \<and> snd (resized p) \<le> h \<and>
           80 \<le> left_border p \<and> 80 \<le> top_border p \<and>
           (right_border CANVAS_SIZE p = left_border p \<or>
            right_border CANVAS_SIZE p = left_border p + 1) \<and>
           (bottom_border CANVAS_SIZE p = top_border p \<or>
            bottom_border CANVAS_SIZE p = top_border p + 1) \<and>
           top_border p < left_border p"
proof -
  define s where "s = min (fl (2040 / rat_of_int w)) (min (fl (1490 / rat_of_int h)) 1)"
  define rw where "rw = py_int (fl (rat_of_int w * s))"
  define rh where "rh = py_int (fl (rat_of_int h * s))"
  note r = assms(1)
  note sb = scale_bounds [OF assms(1-5), folded s_def]
  have wp: "1 \<le> rat_of_int w" and hp: "1 \<le> rat_of_int h"
    using assms(2,4) by (simp_all add: of_int_le_iff [where 'a = rat and w = 1, simplified] Ints_def)
  have ratio: "rat_of_int w * 1650 = rat_of_int h * 2200"
    using assms(6) by (metis of_int_mult of_int_numeral)
  have low_w: "1 / rat_of_int w \<le> min (1020 / rat_of_int w) (min (745 / rat_of_int h) 1)"
    using wp hp ratio by (simp add: field_simps)
  have low_h: "1 / rat_of_int h \<le> min (1020 / rat_of_int w) (min (745 / rat_of_int h) 1)"
    using wp hp ratio by (simp add: field_simps)
  have "1 / rat_of_int w \<le> s" using low_w sb(5) by (rule order_trans)
  then have pw: "1 \<le> rat_of_int w * s"
    using wp by (simp add: field_simps)
  have "1 / rat_of_int h \<le> s" using low_h sb(5) by (rule order_trans)
  then have ph: "1 \<le> rat_of_int h * s"
    using hp by (simp add: field_simps)
  have w1: "1 \<le> rw" unfolding rw_def by (rule resized_pos [OF r pw])
  have h1: "1 \<le> rh" unfolding rh_def by (rule resized_pos [OF r ph])
  have wb: "rw \<le> w" "rw \<le> 2040"
    unfolding rw_def using resized_bounds(2,3) [OF r assms(2,3) _ _ sb(1,2,3)] by simp_all
  have hb: "rh \<le> h" "rh \<le> 1490"
    unfolding rh_def using resized_bounds(2,3) [OF r assms(4,5) _ _ sb(1,2,4)] by simp_all
  define p where "p = \<lparr>factor = s, resized = (rw, rh),
                 offset = ((2200 - rw) div 2, (1650 - rh) div 2)\<rparr>"
  have "letterbox_image fl (w, h) CANVAS_SIZE CANVAS_MARGIN =
      (if rw < 1 \<or> rh < 1 then Inl ResizeError else Inr p)"
    unfolding letterbox_canvas [OF assms(2,4)] Let_def s_def rw_def rh_def p_def ..
  with w1 h1 have res: "letterbox_image fl (w, h) CANVAS_SIZE CANVAS_MARGIN = Inr p"
    by simp
  have sz: "1 \<le> fst (resized p)" "fst (resized p) \<le> w" "1 \<le> snd (resized p)" "snd (resized p) \<le> h"
    using w1 h1 wb hb by (simp_all add: p_def)
  have lt: "80 \<le> left_border p" "80 \<le> top_border p"
    using wb(2) hb(2) by (simp_all add: p_def left_border_def top_border_def)
  have rb: "right_border CANVAS_SIZE p = left_border p \<or>
            right_border CANVAS_SIZE p = left_border p + 1"
    using centred_div2 [of 2200 rw]
    by (simp add: p_def right_border_def left_border_def CANVAS_SIZE_def)
  have bb: "bottom_border CANVAS_SIZE p = top_border p \<or>
            bottom_border CANVAS_SIZE p = top_border p + 1"
    using centred_div2 [of 1650 rh]
    by (simp add: p_def bottom_border_def top_border_def CANVAS_SIZE_def)
  have diff: "rw - rh \<le> 497"
  proof -
    let ?W = "rat_of_int w * s" and ?H = "rat_of_int h * s"
    have Wpos: "0 < ?W" "0 < ?H" using pw ph by simp_all
    have "?W \<le> rat_of_int w * 1" using wp sb(2) by (intro mult_left_mono) simp_all
    moreover have "rat_of_int w \<le> 2 ^ 31"
      using assms(3) by (simp add: of_int_le_iff [where 'a = rat and w = w and z = "2 ^ 31", simplified])
    ultimately have Wle: "?W \<le> 2 ^ 64" by simp
    have "?H \<le> rat_of_int h * 1" using hp sb(2) by (intro mult_left_mono) simp_all
    moreover have "rat_of_int h \<le> 2 ^ 31"
      using assms(5) by (simp add: of_int_le_iff [where 'a = rat and w = h and z = "2 ^ 31", simplified])
    ultimately have Hle: "?H \<le> 2 ^ 64" by simp
    have a: "fl ?W \<le> ?W + ?W / 2 ^ 53"
      using Wpos(1) pw Wle by (intro rounding_upper [OF r]) simp_all
    have b: "?H - ?H / 2 ^ 53 \<le> fl ?H"
      using Wpos(2) ph Hle by (intro rounding_lower_tight [OF r]) simp_all
    have "?H \<le> rat_of_int h * fl (rat_of_int 1490 / rat_of_int h)"
      using hp sb(4) by (intro mult_left_mono) simp_all
    also have "\<dots> \<le> rat_of_int h *
        (rat_of_int 1490 / rat_of_int h + rat_of_int 1490 / rat_of_int h / 2 ^ 53)"
      using hp quotient_bounds(2) [OF r assms(4,5), of 1490] by (intro mult_left_mono) simp_all
    also have "\<dots> = 1490 + 1490 / 2 ^ 53"
      using hp by (simp add: field_simps)
    finally have c: "?H \<le> 1490 + 1490 / 2 ^ 53" .
    have d: "?W * 3 = ?H * 4"
      using ratio by (simp add: field_simps)
    have f0: "0 \<le> fl ?W" "0 \<le> fl ?H"
      using Wpos by (simp_all add: rounding_nonneg [OF r])
    have e1: "rat_of_int rw \<le> fl ?W"
      unfolding rw_def using f0(1) by (simp add: py_int_nonneg)
    have e2: "fl ?H < rat_of_int rh + 1"
      unfolding rh_def using f0(2) by (simp add: py_int_nonneg) linarith
    define W H fW fH where "W = ?W" and "H = ?H" and "fW = fl ?W" and "fH = fl ?H"
    have a': "fW \<le> W + W / 9007199254740992"
      using a by (simp add: W_def fW_def)
    have b': "H - H / 9007199254740992 \<le> fH"
      using b by (simp add: H_def fH_def)
    have c': "H \<le> 1490 + 1490 / 9007199254740992"
      using c by (simp add: H_def)
    have d': "W * 3 = H * 4"
      using d by (simp only: W_def H_def)
    have "rat_of_int rw - rat_of_int rh < 498"
      using a' b' c' d' e1 [folded fW_def] e2 [folded fH_def] by linarith
    then have "rat_of_int (rw - rh) < rat_of_int 498" by simp
    then have "rw - rh < 498" by (simp only: of_int_less_iff)
    then show ?thesis by simp
  qed
  have tl: "top_border p < left_border p"
    using diff by (simp add: p_def left_border_def top_border_def)
  from res sz lt rb bb tl show ?thesis by blast
qed

text \<open>An image of 4000 by 3000 pixels: the borders are 107 pixels left and right, 80 above.\<close>

theorem letterbox_centred_witness:
  "rounding exact \<and> (4000::int) * 1650 = 3000 * 2200 \<and>
   letterbox_image exact (4000, 3000) CANVAS_SIZE CANVAS_MARGIN =
     Inr \<lparr>factor = 149 / 300, resized = (1986, 1490), offset = (107, 80)\<rparr> \<and>
   top_border \<lparr>factor = 149 / 300, resized = (1986, 1490), offset = (107, 80)\<rparr>
     < left_border \<lparr>factor = 149 / 300, resized = (1986, 1490), offset = (107, 80)\<rparr> \<and>
   right_border CANVAS_SIZE \<lparr>factor = 149 / 300, resized = (1986, 1490), offset = (107, 80)\<rparr>
     = 107"
proof -
  have b: "(0::int) < 4000" "(4000::int) < 2 ^ 31" "(0::int) < 3000" "(3000::int) < 2 ^ 31"
    "(4000::int) * 1650 = 3000 * 2200"
    by simp_all
  from letterbox_centred [OF rounding_exact b]
  obtain p where res: "letterbox_image exact (4000, 3000) CANVAS_SIZE CANVAS_MARGIN = Inr p"
    and tl: "top_border p < left_border p"
    by blast
  have ev: "letterbox_image exact (4000, 3000) CANVAS_SIZE CANVAS_MARGIN =
     Inr \<lparr>factor = 149 / 300, resized = (1986, 1490), offset = (107, 80)\<rparr>"
    by (simp add: letterbox_image_def CANVAS_SIZE_def CANVAS_MARGIN_def exact_def py_int_def
        floor_rat_numeral)
  with res have p: "p = \<lparr>factor = 149 / 300, resized = (1986, 1490), offset = (107, 80)\<rparr>"
    by simp
  have rb: "right_border CANVAS_SIZE \<lparr>factor = 149 / 300, resized = (1986, 1490), offset = (107, 80)\<rparr>
     = 107"
    by (simp add: right_border_def CANVAS_SIZE_def)
  from rounding_exact b(5) ev tl [unfolded p] rb show ?thesis by blast
qed

text \<open>
  C5 as stated fails. An image of 400 by 300 pixels has the aspect ratio of the canvas,
  2200 by 1650. It is not rescaled (the scale is one, and nothing is rounded), its left
  border is 900 pixels wide and its top border 675 pixels high.
\<close>

theorem letterbox_borders_counterexample:
  "letterbox_image exact (400, 300) CANVAS_SIZE CANVAS_MARGIN =
     Inr \<lparr>factor = 1, resized = (400, 300), offset = (900, 675)\<rparr> \<and>
   left_border \<lparr>factor = 1, resized = (400, 300), offset = (900, 675)\<rparr> = 900 \<and>
   top_border \<lparr>factor = 1, resized = (400, 300), offset = (900, 675)\<rparr> = 675"
  by (simp add: letterbox_image_def CANVAS_SIZE_def CANVAS_MARGIN_def exact_def py_int_def
      left_border_def top_border_def)

subsection \<open>Photo insertion\<close>

lemma addnext_split:
  assumes "length pre = Suc k \<or> (length pre \<le> Suc k \<and> post = [])"
  shows "addnext k b (pre @ post) = pre @ [b] @ post"
  using assms by (auto simp: addnext_def)

lemma insert_groups_layout:
  assumes "n_groups = idx + length gs"
    and "length pre = Suc k \<or> (length pre \<le> Suc k \<and> post = [])"
  shows "insert_groups env n_groups idx k gs (pre @ post) =
           pre @ intersperse (Para page_breaker) (map (\<lambda>g. Tbl (photo_table env g)) gs) @ post"
  using assms
proof (induction gs arbitrary: idx k pre)
  case Nil
  then show ?case by simp
next
  case (Cons g gs)
  let ?T = "Tbl (photo_table env g)"
  have s1: "addnext k ?T (pre @ post) = (pre @ [?T]) @ post"
    using addnext_split [OF Cons.prems(2)] by simp
  have c1: "length (pre @ [?T]) = Suc (Suc k) \<or> (length (pre @ [?T]) \<le> Suc (Suc k) \<and> post = [])"
    using Cons.prems(2) by auto
  show ?case
  proof (cases gs)
    case Nil
    with Cons.prems(1) have "\<not> idx < n_groups - 1" by simp
    with Nil show ?thesis
      by (simp add: Let_def s1 del: append_assoc)
  next
    case (Cons g' gs')
    with Cons.prems(1) have lt: "idx < n_groups - 1" by simp
    let ?B = "Para page_breaker"
    have s2: "addnext (Suc k) ?B ((pre @ [?T]) @ post) = (pre @ [?T, ?B]) @ post"
      using addnext_split [OF c1, of ?B] by simp
    have c2: "length (pre @ [?T, ?B]) = Suc (Suc (Suc k)) \<or>
              (length (pre @ [?T, ?B]) \<le> Suc (Suc (Suc k)) \<and> post = [])"
      using c1 by auto
    have n: "n_groups = Suc idx + length gs"
      using Cons.prems(1) by simp
    have "insert_groups env n_groups idx k (g # gs) (pre @ post) =
            insert_groups env n_groups (Suc idx) (Suc (Suc k)) gs ((pre @ [?T, ?B]) @ post)"
      using lt by (simp add: Let_def s1 s2 del: append_assoc)
    also have "\<dots> = (pre @ [?T, ?B]) @
        intersperse ?B (map (\<lambda>g. Tbl (photo_table env g)) gs) @ post"
      by (rule Cons.IH [OF n c2])
    finally show ?thesis
      using Cons by simp
  qed
qed

lemma insert_groups_after:
  "insert_groups env (length gs) 0 k gs sibs =
     take (Suc k) sibs @ intersperse (Para page_breaker) (map (\<lambda>g. Tbl (photo_table env g)) gs) @
     drop (Suc k) sibs"
proof -
  have "length (take (Suc k) sibs) = Suc k \<or>
        (length (take (Suc k) sibs) \<le> Suc k \<and> drop (Suc k) sibs = [])"
    by auto
  from insert_groups_layout [OF _ this, of "length gs" 0 gs env]
  show ?thesis by simp
qed

lemma chunks_Nil [simp]: "chunks n [] = []"
  by (subst chunks.simps) simp

lemma chunks_2_one [simp]: "chunks 2 [x] = [[x]]"
  by (subst chunks.simps) simp

lemma chunks_2_two [simp]: "chunks 2 (x # y # xs) = [x, y] # chunks 2 xs"
  by (subst chunks.simps) simp

lemma chunks_2_induct [case_names Nil One Two]:
  assumes "P []" and "\<And>x. P [x]" and "\<And>x y xs. P xs \<Longrightarrow> P (x # y # xs)"
  shows "P xs"
  using assms by (induction xs rule: induct_list012) auto

lemma length_chunks_2: "length (chunks 2 xs) = (length xs + 1) div 2"
  by (induction xs rule: chunks_2_induct) simp_all

lemma chunks_2_eq_Nil [simp]: "chunks 2 xs = [] \<longleftrightarrow> xs = []"
  by (induction xs rule: chunks_2_induct) simp_all

lemma chunks_2_last:
  "xs \<noteq> [] \<Longrightarrow> length (last (chunks 2 xs)) = (if even (length xs) then 2 else 1)"
  by (induction xs rule: chunks_2_induct) simp_all

lemma chunks_2_butlast: "g \<in> set (butlast (chunks 2 xs)) \<Longrightarrow> length g = 2"
  by (induction xs rule: chunks_2_induct) (auto split: if_splits)

lemma concat_chunks_2: "concat (chunks 2 xs) = xs"
  by (induction xs rule: chunks_2_induct) simp_all

lemma count_breaks_intersperse:
  "count_page_breaks (intersperse (Para page_breaker) (map Tbl ts)) = length ts - 1"
  by (induction ts rule: induct_list012) (simp_all add: count_page_breaks_def)

lemma filter_tables_intersperse:
  "filter (\<lambda>b. b \<noteq> Para page_breaker) (intersperse (Para page_breaker) (map Tbl ts)) = map Tbl ts"
  by (induction ts rule: induct_list012) simp_all

lemma located_paragraphs_set:
  "(l, p) \<in> set (located_paragraphs mk bs) \<longleftrightarrow> (\<exists>i<length bs. l = mk i \<and> bs ! i = Para p)"
  by (auto simp: located_paragraphs_def in_set_enumerate_eq split: block.splits)

lemma located_tables_set:
  "(i, t) \<in> set (located_tables bs) \<longleftrightarrow> i < length bs \<and> bs ! i = Tbl t"
  by (auto simp: located_tables_def in_set_enumerate_eq split: block.splits)

lemma iter_located_valid:
  assumes "(l, p) \<in> set (iter_located doc)"
  shows "valid_loc doc l \<and> siblings doc l ! loc_index l = Para p"
proof -
  from assms consider
    (body) "(l, p) \<in> set (located_paragraphs InBody (body doc))"
  | (cell) i t r row c cl where "(i, t) \<in> set (located_tables (body doc))"
      "(r, row) \<in> set (enumerate 0 (rows t))" "(c, cl) \<in> set (enumerate 0 row)"
      "(l, p) \<in> set (located_paragraphs (InCell i r c) (content cl))"
    by (auto simp: iter_located_def)
  then show ?thesis
  proof cases
    case body
    then show ?thesis by (auto simp: located_paragraphs_set)
  next
    case cell
    from cell(1) have i: "i < length (body doc)" "body doc ! i = Tbl t"
      by (simp_all add: located_tables_set)
    from cell(2) have r: "r < length (rows t)" "row = rows t ! r"
      by (simp_all add: in_set_enumerate_eq)
    from cell(3) have c: "c < length row" "cl = row ! c"
      by (simp_all add: in_set_enumerate_eq)
    from cell(4) obtain j where j: "j < length (content cl)" "l = InCell i r c j"
      "content cl ! j = Para p"
      by (auto simp: located_paragraphs_set)
    show ?thesis using i r c j by simp
  qed
qed

lemma find_photo_anchor_valid:
  assumes "find_photo_anchor doc = (doc1, l)"
  shows "\<exists>p. valid_loc doc1 l \<and> siblings doc1 l ! loc_index l = Para p"
proof (cases "find (\<lambda>(l, p). has_photo_token p) (iter_located doc)")
  case (Some lp)
  obtain l' p where lp: "lp = (l', p)" by (cases lp)
  with Some assms have e: "doc1 = doc" "l = l'" by (simp_all add: find_photo_anchor_def)
  from Some lp have "(l', p) \<in> set (iter_located doc)"
    by (metis find_Some_iff nth_mem)
  from iter_located_valid [OF this] e show ?thesis by blast
next
  case None
  show ?thesis
  proof (cases "find (\<lambda>(l, p). has_section_keyword p) (iter_located doc)")
    case (Some lp)
    obtain l' p where lp: "lp = (l', p)" by (cases lp)
    with Some None assms have e: "doc1 = doc" "l = l'" by (simp_all add: find_photo_anchor_def)
    from Some lp have "(l', p) \<in> set (iter_located doc)"
      by (metis find_Some_iff nth_mem)
    from iter_located_valid [OF this] e show ?thesis by blast
  next
    case n2: None
    with None assms have "doc1 = Document (body doc @ [Para (Paragraph [Text PHOTO_SECTION_HEADING])])"
      "l = InBody (length (body doc))"
      by (simp_all add: find_photo_anchor_def)
    then show ?thesis by simp
  qed
qed

lemma siblings_with_siblings:
  "valid_loc doc l \<Longrightarrow> siblings (with_siblings l f doc) l = f (siblings doc l)"
  by (cases doc; cases l) (auto split: block.splits)

lemma valid_with_siblings:
  "valid_loc doc l \<Longrightarrow> length (f (siblings doc l)) = length (siblings doc l) \<Longrightarrow>
   valid_loc (with_siblings l f doc) l"
  by (cases doc; cases l) (auto split: block.splits)

lemma valid_loc_index: "valid_loc doc l \<Longrightarrow> loc_index l < length (siblings doc l)"
  by (cases l) (auto split: block.splits)

lemma anchor_layout:
  assumes v: "valid_loc doc1 l" and p: "siblings doc1 l ! loc_index l = Para p"
  shows "siblings
           (with_siblings l (\<lambda>sibs. take (Suc (loc_index l)) sibs @ layout @ drop (Suc (loc_index l)) sibs)
              (update_paragraph l g doc1)) l =
         take (loc_index l) (siblings doc1 l) @ [Para (g p)] @ layout @
         drop (Suc (loc_index l)) (siblings doc1 l)"
proof -
  let ?k = "loc_index l"
  let ?s = "siblings doc1 l"
  have k: "?k < length ?s" by (rule valid_loc_index [OF v])
  let ?u = "\<lambda>sibs. sibs[?k := (case sibs ! ?k of Para p \<Rightarrow> Para (g p) | Tbl t \<Rightarrow> Tbl t)]"
  have v2: "valid_loc (update_paragraph l g doc1) l"
    unfolding update_paragraph_def by (rule valid_with_siblings [OF v]) simp
  have s2: "siblings (update_paragraph l g doc1) l = ?s[?k := Para (g p)]"
    unfolding update_paragraph_def by (simp add: siblings_with_siblings [OF v] p)
  have "take (Suc ?k) (?s[?k := Para (g p)]) = take ?k ?s @ [Para (g p)]"
    using k by (simp add: take_Suc_conv_app_nth)
  moreover have "drop (Suc ?k) (?s[?k := Para (g p)]) = drop (Suc ?k) ?s"
    by simp
  ultimately show ?thesis
    by (simp add: siblings_with_siblings [OF v2] s2)
qed

text \<open>
  C3. When the list of prepared photos has \<open>N \<ge> 1\<close> entries, \<^verbatim>\<open>insert_photos\<close> puts,
  right behind the anchor among its siblings, the tables of the batches of two with a page
  break between consecutive tables and none after the last: the siblings are then what
  stood before the anchor, the anchor paragraph with its photo tokens cleared, the tables
  with their page breaks, and what stood behind the anchor. There are \<open>(N + 1) div 2\<close>
  tables, every row of every table has one cell, every table but the last has two rows,
  the last has two rows when \<open>N\<close> is even and one when it is odd, and the number of page
  breaks is the number of tables less one.
\<close>

theorem insert_photos_batches:
  assumes "prepare_photos env files (os_path_join out_dir PHOTO_CACHE) photos = (processed, files1)"
    and "processed \<noteq> []"
  shows "\<exists>tables.
           insert_photos env files doc photos out_dir =
             (with_siblings (snd (find_photo_anchor doc))
                (\<lambda>sibs. take (Suc (loc_index (snd (find_photo_anchor doc)))) sibs @
                         intersperse (Para page_breaker) (map Tbl tables) @
                         drop (Suc (loc_index (snd (find_photo_anchor doc)))) sibs)
                (update_paragraph (snd (find_photo_anchor doc)) clear_photo_tokens
                   (fst (find_photo_anchor doc))),
              files1) \<and>
           tables = map (photo_table env) (chunks PHOTOS_PER_PAGE processed) \<and>
           length tables = (length processed + 1) div 2 \<and>
           (\<forall>t\<in>set tables. \<forall>row\<in>set (rows t). length row = 1) \<and>
           (\<forall>t\<in>set (butlast tables). length (rows t) = 2) \<and>
           length (rows (last tables)) = (if even (length processed) then 2 else 1) \<and>
           count_page_breaks (intersperse (Para page_breaker) (map Tbl tables)) =
             length tables - 1 \<and>
           (\<exists>p. siblings (fst (find_photo_anchor doc)) (snd (find_photo_anchor doc)) !
                  loc_index (snd (find_photo_anchor doc)) = Para p \<and>
                siblings (fst (insert_photos env files doc photos out_dir))
                  (snd (find_photo_anchor doc)) =
                  take (loc_index (snd (find_photo_anchor doc)))
                    (siblings (fst (find_photo_anchor doc)) (snd (find_photo_anchor doc))) @
                  [Para (clear_photo_tokens p)] @
                  intersperse (Para page_breaker) (map Tbl tables) @
                  drop (Suc (loc_index (snd (find_photo_anchor doc))))
                    (siblings (fst (find_photo_anchor doc)) (snd (find_photo_anchor doc))))"
proof -
  define tables where "tables = map (photo_table env) (chunks PHOTOS_PER_PAGE processed)"
  obtain doc1 anchor where fa: "find_photo_anchor doc = (doc1, anchor)"
    by (cases "find_photo_anchor doc")
  have photos: "photos \<noteq> []"
    using assms by auto
  have loop: "insert_groups env (length (chunks PHOTOS_PER_PAGE processed)) 0 (loc_index anchor)
                (chunks PHOTOS_PER_PAGE processed) =
              (\<lambda>sibs. take (Suc (loc_index anchor)) sibs @
                 intersperse (Para page_breaker) (map Tbl tables) @
                 drop (Suc (loc_index anchor)) sibs)"
    by (rule ext) (simp add: insert_groups_after tables_def comp_def)
  have res: "insert_photos env files doc photos out_dir =
             (with_siblings (snd (find_photo_anchor doc))
                (\<lambda>sibs. take (Suc (loc_index (snd (find_photo_anchor doc)))) sibs @
                         intersperse (Para page_breaker) (map Tbl tables) @
                         drop (Suc (loc_index (snd (find_photo_anchor doc)))) sibs)
                (update_paragraph (snd (find_photo_anchor doc)) clear_photo_tokens
                   (fst (find_photo_anchor doc))),
              files1)"
    using photos assms by (simp add: insert_photos_def fa Let_def loop)
  have len: "length tables = (length processed + 1) div 2"
    by (simp add: tables_def PHOTOS_PER_PAGE_def length_chunks_2)
  have cols: "\<forall>t\<in>set tables. \<forall>row\<in>set (rows t). length row = 1"
    by (auto simp: tables_def photo_table_def)
  have two: "\<forall>t\<in>set (butlast tables). length (rows t) = 2"
    by (auto simp: tables_def photo_table_def PHOTOS_PER_PAGE_def map_butlast [symmetric]
        dest: chunks_2_butlast)
  have ne: "chunks 2 processed \<noteq> []"
    using assms(2) by simp
  have lst: "length (rows (last tables)) = (if even (length processed) then 2 else 1)"
    using chunks_2_last [OF assms(2)] ne
    by (simp add: tables_def PHOTOS_PER_PAGE_def last_map photo_table_def)
  have brk: "count_page_breaks (intersperse (Para page_breaker) (map Tbl tables)) =
             length tables - 1"
    by (rule count_breaks_intersperse)
  from find_photo_anchor_valid [OF fa] obtain p where
    va: "valid_loc doc1 anchor" and pa: "siblings doc1 anchor ! loc_index anchor = Para p"
    by blast
  have "siblings (fst (insert_photos env files doc photos out_dir)) anchor =
          take (loc_index anchor) (siblings doc1 anchor) @ [Para (clear_photo_tokens p)] @
          intersperse (Para page_breaker) (map Tbl tables) @
          drop (Suc (loc_index anchor)) (siblings doc1 anchor)"
    unfolding res using anchor_layout [OF va pa] by (simp add: fa)
  with pa have after: "\<exists>p. siblings (fst (find_photo_anchor doc)) (snd (find_photo_anchor doc)) !
                  loc_index (snd (find_photo_anchor doc)) = Para p \<and>
                siblings (fst (insert_photos env files doc photos out_dir))
                  (snd (find_photo_anchor doc)) =
                  take (loc_index (snd (find_photo_anchor doc)))
                    (siblings (fst (find_photo_anchor doc)) (snd (find_photo_anchor doc))) @
                  [Para (clear_photo_tokens p)] @
                  intersperse (Para page_breaker) (map Tbl tables) @
                  drop (Suc (loc_index (snd (find_photo_anchor doc))))
                    (siblings (fst (find_photo_anchor doc)) (snd (find_photo_anchor doc)))"
    unfolding fa by auto
  from res tables_def len cols two lst brk after show ?thesis by blast
qed

text \<open>
  Three photos behind a token paragraph: a table of two rows, a page break, a table of
  one row; the token is cleared and the paragraph behind the anchor stays last.
\<close>

theorem insert_photos_batches_witness:
  "insert_photos copying_env [[49] \<mapsto> Other, [50] \<mapsto> Other, [51] \<mapsto> Other]
     (Document [Para (Paragraph [Text [123, 123, 29031, 29255, 125, 125]]),
                Para (Paragraph [Text [120]])])
     [[49], [50], [51]] [] =
   (Document
      [Para (Paragraph [Text []]),
       Tbl (Table [[Cell [Para (Paragraph [Text [], Picture [49]])]],
                   [Cell [Para (Paragraph [Text [], Picture [50]])]]]),
       Para (Paragraph [PageBreak]),
       Tbl (Table [[Cell [Para (Paragraph [Text [], Picture [51]])]]]),
       Para (Paragraph [Text [120]])],
    [[49] \<mapsto> Other, [50] \<mapsto> Other, [51] \<mapsto> Other])"
proof -
  let ?fs = "[[49] \<mapsto> Other, [50] \<mapsto> Other, [51] \<mapsto> Other] :: fs"
  let ?doc = "Document [Para (Paragraph [Text [123, 123, 29031, 29255, 125, 125]]),
                Para (Paragraph [Text [120]])]"
  have prep: "prepare_photos copying_env ?fs (os_path_join [] PHOTO_CACHE) [[49], [50], [51]] =
                ([[49], [50], [51]], ?fs)"
    by (simp add: copying_env_def path_exists_def)
  have ne: "[[49], [50], [51 :: nat]] \<noteq> []" by simp
  have anchor: "find_photo_anchor ?doc = (?doc, InBody 0)"
    by (simp add: find_photo_anchor_def iter_located_def located_paragraphs_def
        located_tables_def has_photo_token_def para_text_def PHOTO_TOKENS_def)
  have cleared: "clear_photo_tokens (Paragraph [Text [123, 123, 29031, 29255, 125, 125]]) =
                   Paragraph [Text []]"
    by (simp add: clear_photo_tokens_def PHOTO_TOKENS_def para_text_def set_para_text_def
        str_replace.simps)
  from insert_photos_batches [OF prep ne, of ?doc]
  obtain tables where res: "insert_photos copying_env ?fs ?doc [[49], [50], [51]] [] =
             (with_siblings (snd (find_photo_anchor ?doc))
                (\<lambda>sibs. take (Suc (loc_index (snd (find_photo_anchor ?doc)))) sibs @
                         intersperse (Para page_breaker) (map Tbl tables) @
                         drop (Suc (loc_index (snd (find_photo_anchor ?doc)))) sibs)
                (update_paragraph (snd (find_photo_anchor ?doc)) clear_photo_tokens
                   (fst (find_photo_anchor ?doc))),
              ?fs)"
    and tables: "tables = map (photo_table copying_env) (chunks PHOTOS_PER_PAGE [[49], [50], [51]])"
    by blast
  have t: "tables = [Table [[Cell [Para (Paragraph [Text [], Picture [49]])]],
                            [Cell [Para (Paragraph [Text [], Picture [50]])]]],
                     Table [[Cell [Para (Paragraph [Text [], Picture [51]])]]]]"
    unfolding tables by (simp add: PHOTOS_PER_PAGE_def photo_table_def photo_cell_def copying_env_def)
  show ?thesis
    unfolding res anchor t
    by (simp add: update_paragraph_def cleared page_breaker_def)
qed

text \<open>
  C4 (as amended). When no photo is usable after preparation (the list is empty, or every
  photo is missing or fails), \<^verbatim>\<open>insert_photos\<close> returns without an error and leaves the
  whole document as it was: no table is inserted, and the anchor paragraph is not
  touched.
\<close>

theorem insert_photos_none_usable:
  assumes "fst (prepare_photos env files (os_path_join out_dir PHOTO_CACHE) photos) = []"
  shows "insert_photos env files doc photos out_dir =
           (doc, snd (prepare_photos env files (os_path_join out_dir PHOTO_CACHE) photos))"
  using assms by (cases "photos = []") (auto simp: insert_photos_def split: prod.splits)

theorem insert_photos_none_usable_witness:
  "insert_photos failing_env [[49] \<mapsto> Other]
     (Document [Para (Paragraph [Text [120]])]) [[49]] [] =
   (Document [Para (Paragraph [Text [120]])], [[49] \<mapsto> Other])"
proof -
  have "fst (prepare_photos failing_env [[49] \<mapsto> Other] (os_path_join [] PHOTO_CACHE) [[49]]) = []"
    by (simp add: failing_env_def path_exists_def)
  from insert_photos_none_usable [OF this, of "Document [Para (Paragraph [Text [120]])]"]
  show ?thesis
    by (simp add: failing_env_def path_exists_def)
qed

text \<open>
  C4 as stated fails. The template's only paragraph is the photo token (the braces around
  U+7167 U+7247). With one photo that cannot be prepared, and with no photo at all, the
  document comes back unchanged: the anchor paragraph still holds the token, which
  \<^verbatim>\<open>_clear_photo_tokens\<close> would have removed.
\<close>

theorem insert_photos_token_left_counterexample:
  "insert_photos failing_env [[49] \<mapsto> Other]
     (Document [Para (Paragraph [Text [123, 123, 29031, 29255, 125, 125]])]) [[49]] [] =
   (Document [Para (Paragraph [Text [123, 123, 29031, 29255, 125, 125]])], [[49] \<mapsto> Other]) \<and>
   insert_photos failing_env [[49] \<mapsto> Other]
     (Document [Para (Paragraph [Text [123, 123, 29031, 29255, 125, 125]])]) [] [] =
   (Document [Para (Paragraph [Text [123, 123, 29031, 29255, 125, 125]])], [[49] \<mapsto> Other]) \<and>
   find_photo_anchor (Document [Para (Paragraph [Text [123, 123, 29031, 29255, 125, 125]])]) =
     (Document [Para (Paragraph [Text [123, 123, 29031, 29255, 125, 125]])], InBody 0) \<and>
   has_photo_token (Paragraph [Text [123, 123, 29031, 29255, 125, 125]]) \<and>
   clear_photo_tokens (Paragraph [Text [123, 123, 29031, 29255, 125, 125]]) = Paragraph [Text []]"
  by (simp add: insert_photos_def failing_env_def path_exists_def find_photo_anchor_def
      iter_located_def located_paragraphs_def located_tables_def has_photo_token_def
      para_text_def PHOTO_TOKENS_def clear_photo_tokens_def set_para_text_def str_replace.simps)

subsection \<open>Validation of the template\<close>



subsection \<open>Placeholder substitution\<close>

subsubsection \<open>Keys\<close>




subsubsection \<open>Matching\<close>

lemma strip_prefix_append [simp]: "strip_prefix p (p @ s) = Some s"
  by (induction p) auto



lemma strip_prefix_Nil2: "p \<noteq> [] \<Longrightarrow> strip_prefix p [] = None"
  by (cases p) auto













subsubsection \<open>Substitution on text\<close>









subsubsection \<open>Substitution on pieces\<close>

lemma flat_simps [simp]:
  "flat [] = []" "flat (p # ps) = piece_text p @ flat ps" "flat (ps @ qs) = flat ps @ flat qs"
  by (simp_all add: flat_def)

lemma flat_Lit [simp]: "flat (map Lit v) = v"
  by (induction v) simp_all

lemma fill_key_simps [simp]:
  "fill_key key v [] = []" "fill_key key v (p # ps) = fill_piece key v p @ fill_key key v ps"
  "fill_key key v (ps @ qs) = fill_key key v ps @ fill_key key v qs"
  by (simp_all add: fill_key_def)

lemma count_tokens_simps [simp]:
  "count_tokens key [] = 0"
  "count_tokens key (Lit c # ps) = count_tokens key ps"
  "count_tokens key (Tok key' a b # ps) = (if key' = key then Suc (count_tokens key ps) else count_tokens key ps)"
  by (auto simp: count_tokens_def)







subsubsection \<open>Substitution run by run\<close>




subsubsection \<open>The filled text\<close>

lemma filled_simps [simp]:
  "filled vals [] = []" "filled vals (p # ps) = filled_piece vals p @ filled vals ps"
  "filled vals (ps @ qs) = filled vals ps @ filled vals qs"
  by (simp_all add: filled_def)

lemma filled_Lit [simp]: "filled vals (map Lit v) = v"
  by (induction v) simp_all






lemma fill_key_Lit [simp]: "fill_key key v (map Lit u) = map Lit u"
  by (induction u) simp_all


lemma substitute_simps [simp]:
  "substitute [] t = t"
  "substitute ((key, v) # kvs) t = substitute kvs (fst (subn key v t))"
  by (simp_all add: substitute_def)



subsubsection \<open>A paragraph\<close>








subsubsection \<open>The document\<close>















subsubsection \<open>No token is left, and the values are there\<close>















end
